theory Spec2Isabelle
  imports Main
begin

section \<open>Python text primitives\<close>

text \<open>
  A Python \<open>str\<close> is modelled as a \<^typ>\<open>string\<close>: each \<^typ>\<open>char\<close> stands for the code
  point of the same number, so the model covers text whose code points are below 256.
  The character classes below are the ones CPython uses on that range.
\<close>

definition py_isspace :: "char \<Rightarrow> bool" where
  \<comment> \<open>\<open>str.isspace\<close> on one character; the class \<open>str.strip()\<close> removes\<close>
  "py_isspace c =
     (let n = (of_char c :: nat)
      in (9 \<le> n \<and> n \<le> 13) \<or> (28 \<le> n \<and> n \<le> 32) \<or> n = 133 \<or> n = 160)"

definition py_strip :: "string \<Rightarrow> string" where
  \<comment> \<open>\<open>s.strip()\<close>\<close>
  "py_strip s = rev (dropWhile py_isspace (rev (dropWhile py_isspace s)))"

fun truthy :: "string option \<Rightarrow> bool" where
  \<comment> \<open>the truth value of an \<open>Optional[str]\<close>: neither \<open>None\<close> nor the empty string\<close>
  "truthy None = False"
| "truthy (Some s) = (s \<noteq> [])"

fun py_join :: "string \<Rightarrow> string list \<Rightarrow> string" where
  \<comment> \<open>\<open>sep.join(xs)\<close>\<close>
  "py_join sep [] = []"
| "py_join sep [x] = x"
| "py_join sep (x # y # ys) = x @ sep @ py_join sep (y # ys)"

definition py_isdigit :: "char \<Rightarrow> bool" where
  \<comment> \<open>a decimal digit: what \<open>int()\<close> reads and what \<open>\\d\<close> matches\<close>
  "py_isdigit c = (let n = (of_char c :: nat) in 48 \<le> n \<and> n \<le> 57)"

definition digit_val :: "char \<Rightarrow> int" where
  "digit_val c = int (of_char c) - 48"

definition int_isspace :: "char \<Rightarrow> bool" where
  \<comment> \<open>the white space \<open>int()\<close> skips around a literal: 28 to 31 are not in it\<close>
  "int_isspace c =
     (let n = (of_char c :: nat)
      in (9 \<le> n \<and> n \<le> 13) \<or> n = 32 \<or> n = 133 \<or> n = 160)"

fun parse_digits :: "bool \<Rightarrow> int \<Rightarrow> string \<Rightarrow> int option" where
  \<comment> \<open>the digits after the first one; the flag says that the last character read was
      an underscore, which must stand between two digits\<close>
  "parse_digits u acc [] = (if u then None else Some acc)"
| "parse_digits u acc (c # cs) =
     (if py_isdigit c then parse_digits False (acc * 10 + digit_val c) cs
      else if c = CHR ''_'' \<and> \<not> u then parse_digits True acc cs
      else None)"

definition parse_unsigned :: "string \<Rightarrow> int option" where
  "parse_unsigned s =
     (case s of
        [] \<Rightarrow> None
      | c # cs \<Rightarrow> if py_isdigit c then parse_digits False (digit_val c) cs else None)"

definition py_int :: "string \<Rightarrow> int option" where
  \<comment> \<open>\<open>int(s)\<close> in base ten; \<open>None\<close> stands for the \<open>ValueError\<close>\<close>
  "py_int s =
     (case rev (dropWhile int_isspace (rev (dropWhile int_isspace s))) of
        [] \<Rightarrow> None
      | c # cs \<Rightarrow>
          if c = CHR ''-'' then map_option uminus (parse_unsigned cs)
          else if c = CHR ''+'' then parse_unsigned cs
          else parse_unsigned (c # cs))"

definition is_word :: "char \<Rightarrow> bool" where
  \<comment> \<open>the class \<open>\\w\<close> of \<open>re\<close> on a \<open>str\<close> pattern: alphanumeric or underscore\<close>
  "is_word c =
     (let n = (of_char c :: nat)
      in (48 \<le> n \<and> n \<le> 57) \<or> (65 \<le> n \<and> n \<le> 90) \<or> n = 95 \<or> (97 \<le> n \<and> n \<le> 122)
         \<or> n = 170 \<or> n = 178 \<or> n = 179 \<or> n = 181 \<or> n = 185 \<or> n = 186
         \<or> (188 \<le> n \<and> n \<le> 190) \<or> (192 \<le> n \<and> n \<le> 214) \<or> (216 \<le> n \<and> n \<le> 246)
         \<or> 248 \<le> n)"

fun year_here :: "char option \<Rightarrow> string \<Rightarrow> bool" where
  \<comment> \<open>\<open>\\b(19|20)\\d{2}\\b\<close> matches at the head of the text, whose previous character
      (if any) is given: a word boundary, the four characters, a word boundary\<close>
  "year_here prev (a # b # c # d # rest) =
     ((case prev of None \<Rightarrow> True | Some p \<Rightarrow> \<not> is_word p)
      \<and> (a = CHR ''1'' \<and> b = CHR ''9'' \<or> a = CHR ''2'' \<and> b = CHR ''0'')
      \<and> py_isdigit c \<and> py_isdigit d
      \<and> (case rest of [] \<Rightarrow> True | r # _ \<Rightarrow> \<not> is_word r))"
| "year_here prev _ = False"

fun year_search :: "char option \<Rightarrow> string \<Rightarrow> string option" where
  \<comment> \<open>\<open>re.search(r'\\b(19|20)\\d{2}\\b', s)\<close>: the leftmost match, as \<open>group()\<close> gives it\<close>
  "year_search prev [] = None"
| "year_search prev (c # cs) =
     (if year_here prev (c # cs) then Some (take 4 (c # cs)) else year_search (Some c) cs)"

section \<open>The element tree\<close>

text \<open>
  An \<open>xml.etree.ElementTree.Element\<close>: its tag (a name in a namespace reads
  \<open>{uri}local\<close>), its attributes, the text before its first child, the text after its
  end tag, and its children. The attributes are an association list read with
  \<^const>\<open>map_of\<close>, as the dictionary \<open>attrib\<close> is read with \<open>get\<close>.
\<close>

datatype element =
  Element (el_tag: string) (el_attrib: "(string \<times> string) list")
    (el_text: "string option") (el_tail: "string option") (el_children: "element list")

fun iter_elems :: "element \<Rightarrow> element list" where
  \<comment> \<open>\<open>Element.iter()\<close>: the element and all its descendants, in document order\<close>
  "iter_elems (Element t a x y cs) = Element t a x y cs # concat (map iter_elems cs)"

fun itertext :: "element \<Rightarrow> string list" where
  \<comment> \<open>\<open>Element.itertext()\<close>: the inner text pieces, in document order\<close>
  "itertext (Element t a x y cs) =
     (case x of None \<Rightarrow> [] | Some s \<Rightarrow> if s \<noteq> [] then [s] else [])
     @ concat (map (\<lambda>c. itertext c
                 @ (case el_tail c of None \<Rightarrow> [] | Some s \<Rightarrow> if s \<noteq> [] then [s] else [])) cs)"

definition tei :: "string \<Rightarrow> string" where
  \<comment> \<open>a name with the prefix \<open>tei:\<close>, resolved through \<open>ns\<close>\<close>
  "tei name = ''{http://www.tei-c.org/ns/1.0}'' @ name"

definition first :: "'a list \<Rightarrow> 'a option" where
  \<comment> \<open>\<open>next(iterator, None)\<close>, the way \<open>find\<close> takes the first match\<close>
  "first xs = (case xs of [] \<Rightarrow> None | x # _ \<Rightarrow> Some x)"

definition get :: "element \<Rightarrow> string \<Rightarrow> string option" where
  \<comment> \<open>\<open>Element.get(key)\<close>\<close>
  "get e k = map_of (el_attrib e) k"

definition findall_desc :: "string \<Rightarrow> element \<Rightarrow> element list" where
  \<comment> \<open>\<open>e.findall('.//tag')\<close>: the descendants with that tag, the element itself excluded\<close>
  "findall_desc t e = filter (\<lambda>d. el_tag d = t) (concat (map iter_elems (el_children e)))"

definition findall_child :: "string \<Rightarrow> element \<Rightarrow> element list" where
  \<comment> \<open>\<open>e.findall('tag')\<close>: the children with that tag\<close>
  "findall_child t e = filter (\<lambda>d. el_tag d = t) (el_children e)"

definition find_desc :: "string \<Rightarrow> element \<Rightarrow> element option" where
  \<comment> \<open>\<open>e.find('.//tag')\<close>\<close>
  "find_desc t e = first (findall_desc t e)"

definition find_child :: "string \<Rightarrow> element \<Rightarrow> element option" where
  \<comment> \<open>\<open>e.find('tag')\<close>\<close>
  "find_child t e = first (findall_child t e)"

definition find_desc_attr :: "string \<Rightarrow> string \<Rightarrow> string \<Rightarrow> element \<Rightarrow> element option" where
  \<comment> \<open>\<open>e.find('.//tag[@k="v"]')\<close>\<close>
  "find_desc_attr t k v e = first (filter (\<lambda>d. get d k = Some v) (findall_desc t e))"

section \<open>parse\_citations.py\<close>

definition extract_text :: "element option \<Rightarrow> string option" where
  "extract_text element =
     (case element of
        None \<Rightarrow> None
      | Some e \<Rightarrow> (if truthy (el_text e) then map_option py_strip (el_text e) else None))"

definition extract_all_text :: "element option \<Rightarrow> string" where
  "extract_all_text element =
     (case element of
        None \<Rightarrow> []
      | Some e \<Rightarrow> py_strip (concat (itertext e)))"

record citation =
  title :: "string option"
  authors :: "string list"
  proceedings :: "string option"
  year :: "int option"

definition new_citation :: citation where
  \<comment> \<open>the dictionary every fragment starts from\<close>
  "new_citation = \<lparr>title = None, authors = [], proceedings = None, year = None\<rparr>"

fun forenames_loop :: "element list \<Rightarrow> string list \<Rightarrow> string list" where
  \<comment> \<open>\<open>for forename in pers_name.findall('tei:forename', ns)\<close>\<close>
  "forenames_loop [] forenames = forenames"
| "forenames_loop (forename # rest) forenames =
     (case extract_text (Some forename) of
        None \<Rightarrow> forenames_loop rest forenames
      | Some fn_text \<Rightarrow>
          forenames_loop rest (if fn_text \<noteq> [] then forenames @ [fn_text] else forenames))"

definition author_step :: "element \<Rightarrow> citation \<Rightarrow> citation" where
  \<comment> \<open>the body of \<open>for author in analytic.findall('.//tei:author', ns)\<close>\<close>
  "author_step author c =
     (case find_desc (tei ''persName'') author of
        None \<Rightarrow> c
      | Some pers_name \<Rightarrow>
          (let forenames = forenames_loop (findall_child (tei ''forename'') pers_name) [];
               surname = extract_text (find_child (tei ''surname'') pers_name)
           in case surname of
                None \<Rightarrow> c
              | Some s \<Rightarrow>
                  if forenames \<noteq> [] \<and> s \<noteq> []
                  then c\<lparr>authors := authors c @ [py_join '' '' forenames @ '' '' @ s]\<rparr>
                  else if s \<noteq> [] then c\<lparr>authors := authors c @ [s]\<rparr>
                  else c))"

fun authors_loop :: "element list \<Rightarrow> citation \<Rightarrow> citation" where
  "authors_loop [] c = c"
| "authors_loop (author # rest) c = authors_loop rest (author_step author c)"

definition analytic_step :: "element \<Rightarrow> citation \<Rightarrow> citation" where
  \<comment> \<open>lines 64 to 93: title and authors from the analytic section\<close>
  "analytic_step biblStruct c =
     (case find_desc (tei ''analytic'') biblStruct of
        None \<Rightarrow> c
      | Some analytic \<Rightarrow>
          (let title_elem =
                 (case find_desc_attr (tei ''title'') ''type'' ''main'' analytic of
                    None \<Rightarrow> find_desc_attr (tei ''title'') ''level'' ''a'' analytic
                  | Some t \<Rightarrow> Some t);
               c1 = (case title_elem of
                       None \<Rightarrow> c
                     | Some t \<Rightarrow> c\<lparr>title := Some (extract_all_text (Some t))\<rparr>)
           in authors_loop (findall_desc (tei ''author'') analytic) c1))"

definition monogr_title_step :: "element \<Rightarrow> citation \<Rightarrow> citation" where
  \<comment> \<open>lines 95 to 104: the title from the monogr section, if there is none yet\<close>
  "monogr_title_step biblStruct c =
     (if \<not> truthy (title c) then
        (case find_desc (tei ''monogr'') biblStruct of
           None \<Rightarrow> c
         | Some monogr \<Rightarrow>
             (case (case find_desc_attr (tei ''title'') ''type'' ''main'' monogr of
                      None \<Rightarrow> find_desc_attr (tei ''title'') ''level'' ''m'' monogr
                    | Some t \<Rightarrow> Some t) of
                None \<Rightarrow> c
              | Some t \<Rightarrow> c\<lparr>title := Some (extract_all_text (Some t))\<rparr>))
      else c)"

definition proceedings_step :: "element \<Rightarrow> citation \<Rightarrow> citation" where
  \<comment> \<open>lines 106 to 129: the venue from the monogr section\<close>
  "proceedings_step biblStruct c =
     (case find_desc (tei ''monogr'') biblStruct of
        None \<Rightarrow> c
      | Some monogr \<Rightarrow>
          (let c1 = (case find_child (tei ''meeting'') monogr of
                       None \<Rightarrow> c
                     | Some meeting_elem \<Rightarrow>
                         (let meeting_text = extract_text (Some meeting_elem)
                          in if truthy meeting_text then c\<lparr>proceedings := meeting_text\<rparr>
                             else c))
           in if \<not> truthy (proceedings c1) then
                (case find_desc_attr (tei ''title'') ''level'' ''j'' monogr of
                   Some journal_title \<Rightarrow>
                     c1\<lparr>proceedings := Some (extract_all_text (Some journal_title))\<rparr>
                 | None \<Rightarrow>
                     (case find_desc_attr (tei ''title'') ''level'' ''m'' monogr of
                        None \<Rightarrow> c1
                      | Some proc_title \<Rightarrow>
                          (let proc_text = extract_all_text (Some proc_title)
                           in if proc_text \<noteq> [] \<and> Some proc_text \<noteq> title c1
                              then c1\<lparr>proceedings := Some proc_text\<rparr>
                              else c1)))
              else c1))"

definition date_step :: "element \<Rightarrow> citation \<Rightarrow> citation" where
  \<comment> \<open>lines 139 to 160: the year from the date element; a \<open>ValueError\<close> of \<open>int\<close> is
      caught and leaves the year as it was\<close>
  "date_step date_elem c =
     (let c1 = (case get date_elem ''when'' of
                  None \<Rightarrow> c
                | Some year_attr \<Rightarrow>
                    if year_attr \<noteq> [] then
                      (case py_int (take 4 year_attr) of
                         None \<Rightarrow> c
                       | Some n \<Rightarrow> c\<lparr>year := Some n\<rparr>)
                    else c)
      in if year c1 = None then
           (case extract_text (Some date_elem) of
              None \<Rightarrow> c1
            | Some date_text \<Rightarrow>
                if date_text \<noteq> [] then
                  (case year_search None date_text of
                     None \<Rightarrow> c1
                   | Some year_match \<Rightarrow>
                       (case py_int year_match of
                          None \<Rightarrow> c1
                        | Some n \<Rightarrow> c1\<lparr>year := Some n\<rparr>))
                else c1)
         else c1)"

definition year_step :: "element \<Rightarrow> citation \<Rightarrow> citation" where
  \<comment> \<open>lines 131 to 160\<close>
  "year_step biblStruct c =
     (case find_desc (tei ''imprint'') biblStruct of
        None \<Rightarrow> c
      | Some imprint \<Rightarrow>
          (case (case find_desc_attr (tei ''date'') ''type'' ''published'' imprint of
                   None \<Rightarrow> find_desc (tei ''date'') imprint
                 | Some d \<Rightarrow> Some d) of
             None \<Rightarrow> c
           | Some date_elem \<Rightarrow> date_step date_elem c))"

definition fill_citation :: "element \<Rightarrow> citation" where
  \<comment> \<open>the body of the loop over the fragments, up to the test that keeps the record\<close>
  "fill_citation biblStruct =
     year_step biblStruct
       (proceedings_step biblStruct
         (monogr_title_step biblStruct
           (analytic_step biblStruct new_citation)))"

definition keep :: "citation \<Rightarrow> bool" where
  \<comment> \<open>\<open>if citation['title'] or citation['authors']\<close>\<close>
  "keep c = (truthy (title c) \<or> authors c \<noteq> [])"

datatype py_error = ParseError | OtherException

text \<open>
  The loop over the fragments runs inside one \<open>try\<close>. No operation of its body raises on
  a parsed document: the \<open>ValueError\<close> of \<open>int\<close> is caught where it arises. An exception
  in the body can therefore only come from outside the program text, and it is a
  parameter here: \<open>raises b\<close> says that one arises while the fragment \<open>b\<close> is processed.
  The record of a fragment is appended at the end of the body only, so the exception
  leaves the list as it was before the fragment; the handler prints and the function
  returns the list. The run of the program on a document is the one with
  \<open>never_raises\<close>, defined below.
\<close>

fun fragments_loop ::
  "(element \<Rightarrow> bool) \<Rightarrow> element list \<Rightarrow> citation list \<Rightarrow> citation list \<times> py_error option"
where
  "fragments_loop raises [] citations = (citations, None)"
| "fragments_loop raises (biblStruct # rest) citations =
     (if raises biblStruct then (citations, Some OtherException)
      else (let citation = fill_citation biblStruct
            in fragments_loop raises rest
                 (if keep citation then citations @ [citation] else citations)))"

definition parse_citations_from_xml ::
  "(element \<Rightarrow> bool) \<Rightarrow> py_error + element \<Rightarrow> citation list"
where
  \<comment> \<open>the argument is what \<open>ET.parse(file_path).getroot()\<close> gives: the root, or the
      exception raised for a file that is not well-formed; both handlers return the
      list\<close>
  "parse_citations_from_xml raises parsed =
     (case parsed of
        Inl e \<Rightarrow> []
      | Inr root \<Rightarrow> fst (fragments_loop raises (findall_desc (tei ''biblStruct'') root) []))"

definition never_raises :: "element \<Rightarrow> bool" where
  \<comment> \<open>the run of the program: nothing raises inside the loop\<close>
  "never_raises b = False"

section \<open>The JSON output and its reader\<close>

text \<open>
  \<open>main\<close> writes the list of records with \<open>json.dump(all_citations, f, indent=2,
  ensure_ascii=False)\<close>, and \<open>load_citations\<close> of the verification script reads the
  file back with \<open>json.load\<close>. Both are library calls; what follows is the encoder and
  the decoder of CPython's \<open>json\<close> package on the values the program holds: \<open>None\<close>,
  booleans, integers, strings, lists and dictionaries with string keys (a dictionary is
  the list of its items in insertion order). A number with a fraction or an exponent,
  \<open>NaN\<close>, \<open>Infinity\<close> and an escape \<open>\\uXXXX\<close> above 255 are outside this
  model: the decoder answers \<open>NotModelled\<close> for them. The file is opened as UTF-8
  text on both sides, so the text read is the text written.
\<close>

datatype json = JNull | JBool bool | JInt int | JStr string | JArr "json list"
  | JObj "(string \<times> json) list"

datatype decode_error = JSONDecodeError | NotModelled | OutOfFuel

definition hex_digit :: "nat \<Rightarrow> char" where
  \<comment> \<open>one digit of \<open>format(i, 'x')\<close>, and of the decimal \<open>repr\<close> of an int; it is
      only asked for a digit below 16\<close>
  "hex_digit n = ''0123456789abcdef'' ! n"

definition escape_char :: "char \<Rightarrow> string" where
  \<comment> \<open>\<open>ESCAPE_DCT\<close>: what \<open>ESCAPE.sub\<close> puts for one character\<close>
  "escape_char c =
     (if c = CHR 0x5C then [CHR 0x5C, CHR 0x5C]
      else if c = CHR 0x22 then [CHR 0x5C, CHR 0x22]
      else if c = CHR 0x08 then [CHR 0x5C, CHR ''b'']
      else if c = CHR 0x0C then [CHR 0x5C, CHR ''f'']
      else if c = CHR 0x0A then [CHR 0x5C, CHR ''n'']
      else if c = CHR 0x0D then [CHR 0x5C, CHR ''r'']
      else if c = CHR 0x09 then [CHR 0x5C, CHR ''t'']
      else if (of_char c :: nat) < 32
        then [CHR 0x5C, CHR ''u'', CHR ''0'', CHR ''0'',
              hex_digit (of_char c div 16), hex_digit (of_char c mod 16)]
      else [c])"

definition encode_basestring :: "string \<Rightarrow> string" where
  \<comment> \<open>the string encoder chosen by \<open>ensure_ascii=False\<close>\<close>
  "encode_basestring s = CHR 0x22 # concat (map escape_char s) @ [CHR 0x22]"

function digits_of :: "nat \<Rightarrow> string" where
  "digits_of n =
     (if n < 10 then [hex_digit n] else digits_of (n div 10) @ [hex_digit (n mod 10)])"
  by pat_completeness auto
termination
  by (relation "measure id") auto

declare digits_of.simps [simp del]

definition int_repr :: "int \<Rightarrow> string" where
  \<comment> \<open>\<open>int.__repr__\<close>\<close>
  "int_repr i = (if i < 0 then CHR ''-'' # digits_of (nat (- i)) else digits_of (nat i))"

definition newline_indent :: "nat \<Rightarrow> string" where
  \<comment> \<open>\<open>'\\n' + _indent * _current_indent_level\<close> with \<open>indent=2\<close>\<close>
  "newline_indent level = CHR 0x0A # replicate (2 * level) CHR '' ''"

fun iterencode :: "nat \<Rightarrow> json \<Rightarrow> string" where
  \<comment> \<open>\<open>_iterencode\<close> at an indentation level, its chunks concatenated; the item
      separator is \<open>','\<close> and the key separator \<open>': '\<close>\<close>
  "iterencode level JNull = ''null''"
| "iterencode level (JBool b) = (if b then ''true'' else ''false'')"
| "iterencode level (JInt i) = int_repr i"
| "iterencode level (JStr s) = encode_basestring s"
| "iterencode level (JArr vs) =
     (if vs = [] then ''[]''
      else ''['' @ newline_indent (Suc level)
           @ py_join ('','' @ newline_indent (Suc level)) (map (iterencode (Suc level)) vs)
           @ newline_indent level @ '']'')"
| "iterencode level (JObj ps) =
     (if ps = [] then ''{}''
      else ''{'' @ newline_indent (Suc level)
           @ py_join ('','' @ newline_indent (Suc level))
               (map (\<lambda>(k, v). encode_basestring k @ '': '' @ iterencode (Suc level) v) ps)
           @ newline_indent level @ ''}'')"

definition is_json_ws :: "char \<Rightarrow> bool" where
  \<comment> \<open>\<open>WHITESPACE_STR\<close>\<close>
  "is_json_ws c = (c = CHR '' '' \<or> c = CHR 0x09 \<or> c = CHR 0x0A \<or> c = CHR 0x0D)"

definition skip_ws :: "string \<Rightarrow> string" where
  "skip_ws s = dropWhile is_json_ws s"

definition hex_val :: "char \<Rightarrow> nat option" where
  "hex_val c =
     (let n = (of_char c :: nat)
      in if 48 \<le> n \<and> n \<le> 57 then Some (n - 48)
         else if 97 \<le> n \<and> n \<le> 102 then Some (n - 87)
         else if 65 \<le> n \<and> n \<le> 70 then Some (n - 55)
         else None)"

definition backslash :: "char \<Rightarrow> char option" where
  \<comment> \<open>the dictionary \<open>BACKSLASH\<close>\<close>
  "backslash e =
     (if e = CHR 0x22 then Some (CHR 0x22)
      else if e = CHR 0x5C then Some (CHR 0x5C)
      else if e = CHR ''/'' then Some (CHR ''/'')
      else if e = CHR ''b'' then Some (CHR 0x08)
      else if e = CHR ''f'' then Some (CHR 0x0C)
      else if e = CHR ''n'' then Some (CHR 0x0A)
      else if e = CHR ''r'' then Some (CHR 0x0D)
      else if e = CHR ''t'' then Some (CHR 0x09)
      else None)"

definition decode_uXXXX :: "string \<Rightarrow> decode_error + char" where
  \<comment> \<open>four hexadecimal digits give the character; a code above 255 is not modelled\<close>
  "decode_uXXXX esc =
     (case map hex_val esc of
        [Some a, Some b, Some c, Some d] \<Rightarrow>
          if a = 0 \<and> b = 0 then Inr (char_of (c * 16 + d)) else Inl NotModelled
      | _ \<Rightarrow> Inl JSONDecodeError)"

fun scanstring :: "string \<Rightarrow> string \<Rightarrow> decode_error + string \<times> string" where
  \<comment> \<open>\<open>scanstring\<close> (strict) from just after the opening quote: the characters read
      so far, the text; it gives the string and the text after the closing quote\<close>
  "scanstring chunks [] = Inl JSONDecodeError"
| "scanstring chunks (c # cs) =
     (if c = CHR 0x22 then Inr (chunks, cs)
      else if c = CHR 0x5C then
        (case cs of
           [] \<Rightarrow> Inl JSONDecodeError
         | esc # rest \<Rightarrow>
             if esc = CHR ''u'' then
               (if length rest < 4 then Inl JSONDecodeError
                else (case decode_uXXXX (take 4 rest) of
                        Inl e \<Rightarrow> Inl e
                      | Inr ch \<Rightarrow> scanstring (chunks @ [ch]) (drop 4 rest)))
             else
               (case backslash esc of
                  None \<Rightarrow> Inl JSONDecodeError
                | Some ch \<Rightarrow> scanstring (chunks @ [ch]) rest))
      else if (of_char c :: nat) < 32 then Inl JSONDecodeError
      else scanstring (chunks @ [c]) cs)"

definition unsigned_part :: "string \<Rightarrow> string" where
  \<comment> \<open>the prefix matched by \<open>0|[1-9][0-9]*\<close>, empty if there is none\<close>
  "unsigned_part s =
     (case s of
        [] \<Rightarrow> []
      | c # cs \<Rightarrow>
          if \<not> py_isdigit c then []
          else if c = CHR ''0'' then [c]
          else c # takeWhile py_isdigit cs)"

definition integer_part :: "string \<Rightarrow> string" where
  \<comment> \<open>the prefix matched by \<open>-?(?:0|[1-9][0-9]*)\<close>\<close>
  "integer_part s =
     (case s of
        [] \<Rightarrow> []
      | c # cs \<Rightarrow>
          if c = CHR ''-'' then (if unsigned_part cs = [] then [] else c # unsigned_part cs)
          else unsigned_part s)"

definition frac_part :: "string \<Rightarrow> string" where
  \<comment> \<open>the prefix matched by \<open>(\\.[0-9]+)?\<close>\<close>
  "frac_part s =
     (case s of
        p # q # r \<Rightarrow>
          if p = CHR ''.'' \<and> py_isdigit q then p # takeWhile py_isdigit (q # r) else []
      | _ \<Rightarrow> [])"

definition exp_part :: "string \<Rightarrow> string" where
  \<comment> \<open>the prefix matched by \<open>([eE][-+]?[0-9]+)?\<close>\<close>
  "exp_part s =
     (case s of
        [] \<Rightarrow> []
      | e # t \<Rightarrow>
          if e = CHR ''e'' \<or> e = CHR ''E'' then
            (let sg = (case t of
                         [] \<Rightarrow> []
                       | x # _ \<Rightarrow> if x = CHR ''-'' \<or> x = CHR ''+'' then [x] else []);
                 u = drop (length sg) t
             in case u of
                  [] \<Rightarrow> []
                | d # _ \<Rightarrow> if py_isdigit d then e # sg @ takeWhile py_isdigit u else [])
          else [])"

definition match_number :: "string \<Rightarrow> (string \<times> string \<times> string \<times> string) option" where
  \<comment> \<open>\<open>NUMBER_RE.match\<close>: the three groups and the text after the match\<close>
  "match_number s =
     (let integer = integer_part s
      in if integer = [] then None
         else
           (let s2 = drop (length integer) s;
                frac = frac_part s2;
                s3 = drop (length frac) s2;
                exp = exp_part s3
            in Some (integer, frac, exp, drop (length exp) s3)))"

definition scan_constant :: "string \<Rightarrow> decode_error + json \<times> string" where
  \<comment> \<open>the branches of \<open>_scan_once\<close> for \<open>null\<close>, \<open>true\<close>, \<open>false\<close> and numbers\<close>
  "scan_constant s =
     (if take 4 s = ''null'' then Inr (JNull, drop 4 s)
      else if take 4 s = ''true'' then Inr (JBool True, drop 4 s)
      else if take 5 s = ''false'' then Inr (JBool False, drop 5 s)
      else
        (case match_number s of
           Some (integer, frac, exp, rest) \<Rightarrow>
             if frac \<noteq> [] \<or> exp \<noteq> [] then Inl NotModelled
             else (case py_int integer of None \<Rightarrow> Inl JSONDecodeError | Some i \<Rightarrow> Inr (JInt i, rest))
         | None \<Rightarrow>
             if take 3 s = ''NaN'' \<or> take 8 s = ''Infinity'' \<or> take 9 s = ''-Infinity''
             then Inl NotModelled else Inl JSONDecodeError))"

fun dict_set :: "(string \<times> json) list \<Rightarrow> string \<Rightarrow> json \<Rightarrow> (string \<times> json) list" where
  "dict_set [] k v = [(k, v)]"
| "dict_set ((k', v') # ps) k v = (if k' = k then (k, v) # ps else (k', v') # dict_set ps k v)"

text \<open>
  The scanner calls itself through \<open>JSONArray\<close> and \<open>JSONObject\<close>. Its first argument
  bounds the depth of these calls and the number of items read: one more than the
  length of the text is always enough, since each of them reads a character first. Each function gets the
  text at its position and gives the value with the text after it; white space is
  skipped where the library skips it.
\<close>

fun scan_once :: "nat \<Rightarrow> string \<Rightarrow> decode_error + json \<times> string"
  and parse_array :: "nat \<Rightarrow> json list \<Rightarrow> string \<Rightarrow> decode_error + json \<times> string"
  and parse_object :: "nat \<Rightarrow> (string \<times> json) list \<Rightarrow> string \<Rightarrow> decode_error + json \<times> string"
where
  "scan_once 0 s = Inl OutOfFuel"
| "scan_once (Suc n) s =
     (case s of
        [] \<Rightarrow> Inl JSONDecodeError
      | c # cs \<Rightarrow>
          if c = CHR 0x22 then
            (case scanstring [] cs of
               Inl e \<Rightarrow> Inl e
             | Inr (x, rest) \<Rightarrow> Inr (JStr x, rest))
          else if c = CHR ''{'' then
            (case skip_ws cs of
               [] \<Rightarrow> Inl JSONDecodeError
             | d # ds \<Rightarrow>
                 if d = CHR ''}'' then Inr (JObj [], ds)
                 else if d = CHR 0x22 then parse_object n [] ds
                 else Inl JSONDecodeError)
          else if c = CHR ''['' then
            (case skip_ws cs of
               [] \<Rightarrow> Inl JSONDecodeError
             | d # ds \<Rightarrow>
                 if d = CHR '']'' then Inr (JArr [], ds)
                 else parse_array n [] (d # ds))
          else scan_constant s)"
| "parse_array 0 vs s = Inl OutOfFuel"
| "parse_array (Suc n) vs s =
     (case scan_once (Suc n) s of
        Inl e \<Rightarrow> Inl e
      | Inr (v, rest) \<Rightarrow>
          (case skip_ws rest of
             [] \<Rightarrow> Inl JSONDecodeError
           | d # ds \<Rightarrow>
               if d = CHR '']'' then Inr (JArr (vs @ [v]), ds)
               else if d = CHR '','' then parse_array n (vs @ [v]) (skip_ws ds)
               else Inl JSONDecodeError))"
| "parse_object 0 ps s = Inl OutOfFuel"
| "parse_object (Suc n) ps s =
     (case scanstring [] s of
        Inl e \<Rightarrow> Inl e
      | Inr (key, rest) \<Rightarrow>
          (case skip_ws rest of
             [] \<Rightarrow> Inl JSONDecodeError
           | d # ds \<Rightarrow>
               if d \<noteq> CHR '':'' then Inl JSONDecodeError
               else
                 (case scan_once (Suc n) (skip_ws ds) of
                    Inl e \<Rightarrow> Inl e
                  | Inr (v, rest') \<Rightarrow>
                      (case skip_ws rest' of
                         [] \<Rightarrow> Inl JSONDecodeError
                       | d' # ds' \<Rightarrow>
                           if d' = CHR ''}'' then Inr (JObj (dict_set ps key v), ds')
                           else if d' = CHR '','' then
                             (case skip_ws ds' of
                                [] \<Rightarrow> Inl JSONDecodeError
                              | q # qs \<Rightarrow>
                                  if q = CHR 0x22 then parse_object n (dict_set ps key v) qs
                                  else Inl JSONDecodeError)
                           else Inl JSONDecodeError))))"

definition json_loads :: "string \<Rightarrow> decode_error + json" where
  \<comment> \<open>\<open>JSONDecoder.decode\<close>: one value, white space around it, nothing after\<close>
  "json_loads s =
     (case scan_once (Suc (length s)) (skip_ws s) of
        Inl e \<Rightarrow> Inl e
      | Inr (obj, rest) \<Rightarrow> if skip_ws rest = [] then Inr obj else Inl JSONDecodeError)"

definition json_dumps :: "json \<Rightarrow> string" where
  \<comment> \<open>the text \<open>json.dump(obj, f, indent=2, ensure_ascii=False)\<close> writes\<close>
  "json_dumps obj = iterencode 0 obj"

definition citation_dict :: "citation \<Rightarrow> json" where
  \<comment> \<open>the dictionary of lines 57 to 62, its keys in the order of insertion\<close>
  "citation_dict c =
     JObj [(''title'', case title c of None \<Rightarrow> JNull | Some s \<Rightarrow> JStr s),
           (''authors'', JArr (map JStr (authors c))),
           (''proceedings'', case proceedings c of None \<Rightarrow> JNull | Some s \<Rightarrow> JStr s),
           (''year'', case year c of None \<Rightarrow> JNull | Some n \<Rightarrow> JInt n)]"

definition dump_citations :: "citation list \<Rightarrow> string" where
  \<comment> \<open>lines 229 and 230 of \<open>main\<close>: the content of the output file\<close>
  "dump_citations all_citations = json_dumps (JArr (map citation_dict all_citations))"

definition load_citations :: "string \<Rightarrow> decode_error + json" where
  \<comment> \<open>\<open>load_citations\<close> of example\_starter.py, given the content of the file\<close>
  "load_citations content = json_loads content"

section \<open>The field rules, as the specification words them\<close>

fun first_rule :: "'a option list \<Rightarrow> 'a option" where
  \<comment> \<open>an ordered list of rules: the first one that yields a value wins\<close>
  "first_rule [] = None"
| "first_rule (None # rules) = first_rule rules"
| "first_rule (Some v # rules) = Some v"

definition given_names :: "element \<Rightarrow> string list" where
  \<comment> \<open>the given-name components of a personal name, in document order\<close>
  "given_names pers_name =
     filter (\<lambda>s. s \<noteq> [])
       (List.map_filter (\<lambda>f. extract_text (Some f))
          (findall_child (tei ''forename'') pers_name))"

definition family_name :: "element \<Rightarrow> string option" where
  "family_name pers_name =
     (case extract_text (find_child (tei ''surname'') pers_name) of
        None \<Rightarrow> None
      | Some s \<Rightarrow> if s \<noteq> [] then Some s else None)"

definition display_name :: "element \<Rightarrow> string option" where
  \<comment> \<open>the displayed name of an author entry, if it contributes one\<close>
  "display_name author =
     (case find_desc (tei ''persName'') author of
        None \<Rightarrow> None
      | Some p \<Rightarrow>
          (case family_name p of
             None \<Rightarrow> None
           | Some fam \<Rightarrow>
               if given_names p = [] then Some fam
               else Some (py_join '' '' (given_names p) @ '' '' @ fam)))"

definition title_text :: "element \<Rightarrow> string" where
  \<comment> \<open>the text of a title: all descendant text nodes concatenated, then trimmed\<close>
  "title_text t = py_strip (concat (itertext t))"

definition analytic_title :: "element \<Rightarrow> string option" where
  \<comment> \<open>rules (a) and (b): the title typed main, else the title at article level\<close>
  "analytic_title b =
     (case find_desc (tei ''analytic'') b of
        None \<Rightarrow> None
      | Some a \<Rightarrow>
          map_option title_text
            (first_rule [find_desc_attr (tei ''title'') ''type'' ''main'' a,
                         find_desc_attr (tei ''title'') ''level'' ''a'' a]))"

definition monogr_title :: "element \<Rightarrow> string option" where
  \<comment> \<open>rules (c) and (d): the title typed main, else the title at monograph level\<close>
  "monogr_title b =
     (case find_desc (tei ''monogr'') b of
        None \<Rightarrow> None
      | Some m \<Rightarrow>
          map_option title_text
            (first_rule [find_desc_attr (tei ''title'') ''type'' ''main'' m,
                         find_desc_attr (tei ''title'') ''level'' ''m'' m]))"

definition meeting_name :: "element \<Rightarrow> string option" where
  \<comment> \<open>venue rule (a): the text of the meeting element itself, trimmed, when something
      is left of it\<close>
  "meeting_name monogr =
     (case find_child (tei ''meeting'') monogr of
        None \<Rightarrow> None
      | Some e \<Rightarrow>
          (case el_text e of
             None \<Rightarrow> None
           | Some x \<Rightarrow> if py_strip x \<noteq> [] then Some (py_strip x) else None))"

definition journal_name :: "element \<Rightarrow> string option" where
  \<comment> \<open>venue rule (b): the full text of the title at journal level\<close>
  "journal_name monogr =
     map_option title_text (find_desc_attr (tei ''title'') ''level'' ''j'' monogr)"

definition monograph_name :: "string option \<Rightarrow> element \<Rightarrow> string option" where
  \<comment> \<open>venue rule (c): the title at monograph level, if it has a text other than the
      resolved title\<close>
  "monograph_name resolved_title monogr =
     (case find_desc_attr (tei ''title'') ''level'' ''m'' monogr of
        None \<Rightarrow> None
      | Some p \<Rightarrow>
          if title_text p \<noteq> [] \<and> Some (title_text p) \<noteq> resolved_title
          then Some (title_text p) else None)"

definition date_element :: "element \<Rightarrow> element option" where
  \<comment> \<open>the date element of the imprint: the one marked as published, else any\<close>
  "date_element b =
     (case find_desc (tei ''imprint'') b of
        None \<Rightarrow> None
      | Some i \<Rightarrow>
          first_rule [find_desc_attr (tei ''date'') ''type'' ''published'' i,
                      find_desc (tei ''date'') i])"

definition when_year :: "element \<Rightarrow> int option" where
  \<comment> \<open>the leading four characters of the attribute \<open>when\<close>, read as an integer\<close>
  "when_year d = (case get d ''when'' of None \<Rightarrow> None | Some a \<Rightarrow> py_int (take 4 a))"

definition whole_year_at :: "string \<Rightarrow> nat \<Rightarrow> bool" where
  \<comment> \<open>at position \<open>i\<close> stand four digits beginning with 19 or 20, with no letter, digit
      or underscore next to them on either side\<close>
  "whole_year_at s i =
     (i + 4 \<le> length s
      \<and> (take 2 (drop i s) = ''19'' \<or> take 2 (drop i s) = ''20'')
      \<and> py_isdigit (s ! (i + 2)) \<and> py_isdigit (s ! (i + 3))
      \<and> (i = 0 \<or> \<not> is_word (s ! (i - 1)))
      \<and> (i + 4 = length s \<or> \<not> is_word (s ! (i + 4))))"

definition first_whole_year :: "string \<Rightarrow> string option" where
  \<comment> \<open>the first such four digits of a text\<close>
  "first_whole_year s =
     map_option (\<lambda>i. take 4 (drop i s)) (first (filter (whole_year_at s) [0..<length s]))"

definition text_year :: "element \<Rightarrow> int option" where
  \<comment> \<open>the year found in the trimmed text of the date element\<close>
  "text_year d =
     (case el_text d of
        None \<Rightarrow> None
      | Some x \<Rightarrow> (case first_whole_year (py_strip x) of None \<Rightarrow> None | Some m \<Rightarrow> py_int m))"

section \<open>Notions for the round trip through JSON\<close>

definition follow_ok :: "string \<Rightarrow> bool" where
  \<comment> \<open>what the encoder puts after a value: nothing, a comma or a new line\<close>
  "follow_ok rest = (case rest of [] \<Rightarrow> True | c # _ \<Rightarrow> c = CHR '','' \<or> c = CHR 0x0A)"

definition dec_val :: "int \<Rightarrow> string \<Rightarrow> int" where
  \<comment> \<open>the value of a run of decimal digits, read after \<open>acc\<close>\<close>
  "dec_val acc ds = foldl (\<lambda>a c. a * 10 + digit_val c) acc ds"

fun distinct_keys :: "json \<Rightarrow> bool" where
  \<comment> \<open>no dictionary lists a key twice: the values that Python dictionaries are\<close>
  "distinct_keys (JArr vs) = list_all distinct_keys vs"
| "distinct_keys (JObj ps) = (distinct (map fst ps) \<and> list_all (\<lambda>p. distinct_keys (snd p)) ps)"
| "distinct_keys v = True"

definition value_head :: "char \<Rightarrow> bool" where
  \<comment> \<open>a character an encoded value can begin with\<close>
  "value_head c = (\<not> is_json_ws c \<and> c \<noteq> CHR '']'')"

definition object_item :: "nat \<Rightarrow> string \<times> json \<Rightarrow> string" where
  \<comment> \<open>one item of an encoded dictionary\<close>
  "object_item level = (\<lambda>(k, v). encode_basestring k @ '': '' @ iterencode level v)"

section \<open>Example documents\<close>

definition leaf :: "string \<Rightarrow> (string \<times> string) list \<Rightarrow> string \<Rightarrow> element" where
  \<comment> \<open>\<open><tei:name attrs>txt</tei:name>\<close>\<close>
  "leaf name attrs txt = Element (tei name) attrs (Some txt) None []"

definition node :: "string \<Rightarrow> (string \<times> string) list \<Rightarrow> element list \<Rightarrow> element" where
  \<comment> \<open>an element that holds elements only\<close>
  "node name attrs cs = Element (tei name) attrs None None cs"

definition person :: "string list \<Rightarrow> string list \<Rightarrow> element" where
  \<comment> \<open>an author entry with the given forename and surname elements\<close>
  "person given family =
     node ''author'' []
       [node ''persName'' []
          (map (leaf ''forename'' []) given @ map (leaf ''surname'' []) family)]"

definition ex_attention_analytic :: element where
  "ex_attention_analytic =
     node ''analytic'' []
       [leaf ''title'' [(''level'', ''a''), (''type'', ''main'')] ''Attention Is All You Need'',
        person [''Ashish''] [''Vaswani''],
        person [''Noam''] [''Shazeer'']]"

definition ex_attention_monogr :: element where
  "ex_attention_monogr =
     node ''monogr'' []
       [leaf ''meeting'' [] ''NeurIPS'',
        node ''imprint'' []
          [node ''date'' [(''type'', ''published''), (''when'', ''2017-12-04'')] []]]"

definition ex_attention :: element where
  \<comment> \<open>a paper in the proceedings of a meeting\<close>
  "ex_attention = node ''biblStruct'' [] [ex_attention_analytic, ex_attention_monogr]"

definition ex_book_title :: element where
  "ex_book_title = leaf ''title'' [(''level'', ''m'')] ''The Art of Computer Programming''"

definition ex_book_date :: element where
  "ex_book_date = leaf ''date'' [] ''In press, 2021''"

definition ex_book_monogr :: element where
  "ex_book_monogr = node ''monogr'' [] [ex_book_title, node ''imprint'' [] [ex_book_date]]"

definition ex_book :: element where
  \<comment> \<open>a book: a monograph-level title and no analytic section\<close>
  "ex_book = node ''biblStruct'' [] [ex_book_monogr]"

definition ex_empty :: element where
  \<comment> \<open>a fragment with neither a title nor an author\<close>
  "ex_empty =
     node ''biblStruct'' []
       [node ''monogr'' [] [leaf ''title'' [(''level'', ''j'')] ''Nature'']]"

definition ex_doc :: element where
  "ex_doc = node ''listBibl'' [] [ex_attention, ex_empty, ex_book]"

definition ex_same_meeting :: element where
  \<comment> \<open>a volume of proceedings cited under the name of its meeting\<close>
  "ex_same_meeting =
     node ''biblStruct'' []
       [node ''analytic'' []
          [leaf ''title'' [(''level'', ''a''), (''type'', ''main'')] ''Neural Information Processing Systems''],
        node ''monogr'' []
          [leaf ''meeting'' [] ''Neural Information Processing Systems'']]"

definition ex_blank_main :: element where
  \<comment> \<open>\<open><title type="main"/>\<close>\<close>
  "ex_blank_main = node ''title'' [(''type'', ''main'')] []"

definition ex_blank_level :: element where
  "ex_blank_level = leaf ''title'' [(''level'', ''a'')] ''A Paper''"

definition ex_blank_analytic :: element where
  "ex_blank_analytic = node ''analytic'' [] [ex_blank_main, ex_blank_level]"

definition ex_blank :: element where
  \<comment> \<open>an empty main title and an article-level title, in a book\<close>
  "ex_blank =
     node ''biblStruct'' []
       [ex_blank_analytic,
        node ''monogr'' [] [leaf ''title'' [(''level'', ''m'')] ''A Book'']]"

definition ex_two_main :: element where
  "ex_two_main = leaf ''title'' [(''type'', ''main'')] '' The Main Title ''"

definition ex_two_analytic :: element where
  "ex_two_analytic =
     node ''analytic'' []
       [leaf ''title'' [(''level'', ''a'')] ''The Article Title'', ex_two_main]"

definition ex_two :: element where
  \<comment> \<open>an article-level title followed by a title typed main\<close>
  "ex_two = node ''biblStruct'' [] [ex_two_analytic]"

definition ex_given_name :: element where
  "ex_given_name = node ''persName'' [] [leaf ''forename'' [] ''Ashish'']"

definition ex_given_only :: element where
  \<comment> \<open>an author entry with a given name and no family name\<close>
  "ex_given_only = node ''author'' [] [ex_given_name]"

definition ex_suffix_date :: element where
  "ex_suffix_date = leaf ''date'' [] ''2019a''"

definition ex_suffix :: element where
  \<comment> \<open>a year with a letter after it, as reference lists write it, and no attribute\<close>
  "ex_suffix =
     node ''biblStruct'' []
       [node ''analytic'' [] [leaf ''title'' [(''type'', ''main'')] ''A Paper''],
        node ''monogr'' [] [node ''imprint'' [] [ex_suffix_date]]]"

definition ex_short_date :: element where
  "ex_short_date = node ''date'' [(''when'', ''12'')] []"

definition ex_short :: element where
  \<comment> \<open>a date attribute of two characters\<close>
  "ex_short =
     node ''biblStruct'' []
       [node ''analytic'' [] [leaf ''title'' [(''type'', ''main'')] ''A Paper''],
        node ''monogr'' [] [node ''imprint'' [] [ex_short_date]]]"

definition ex_disagree_date :: element where
  "ex_disagree_date =
     leaf ''date'' [(''type'', ''published''), (''when'', ''2017-12-04'')] ''2018''"

definition ex_disagree :: element where
  \<comment> \<open>the attribute says 2017, the text says 2018\<close>
  "ex_disagree =
     node ''biblStruct'' []
       [node ''analytic'' [] [leaf ''title'' [(''type'', ''main'')] ''A Paper''],
        node ''monogr'' [] [node ''imprint'' [] [ex_disagree_date]]]"

definition ex_blank_meeting_elem :: element where
  \<comment> \<open>\<open><meeting/>\<close>\<close>
  "ex_blank_meeting_elem = node ''meeting'' [] []"

definition ex_blank_meeting_monogr :: element where
  "ex_blank_meeting_monogr =
     node ''monogr'' [] [ex_blank_meeting_elem, leaf ''title'' [(''level'', ''j'')] ''Nature'']"

definition ex_blank_meeting :: element where
  \<comment> \<open>a meeting element without text beside a journal title\<close>
  "ex_blank_meeting =
     node ''biblStruct'' []
       [node ''analytic'' [] [leaf ''title'' [(''type'', ''main'')] ''A Paper''],
        ex_blank_meeting_monogr]"

definition ex_empty_journal_title :: element where
  \<comment> \<open>\<open><title level="j"/>\<close>\<close>
  "ex_empty_journal_title = node ''title'' [(''level'', ''j'')] []"

definition ex_proceedings_title :: element where
  "ex_proceedings_title = leaf ''title'' [(''level'', ''m'')] ''Proc X''"

definition ex_empty_journal_monogr :: element where
  "ex_empty_journal_monogr = node ''monogr'' [] [ex_empty_journal_title, ex_proceedings_title]"

definition ex_empty_journal :: element where
  \<comment> \<open>a journal title without text beside the title of a volume of proceedings\<close>
  "ex_empty_journal =
     node ''biblStruct'' []
       [node ''analytic'' [] [leaf ''title'' [(''type'', ''main'')] ''A Paper''],
        ex_empty_journal_monogr]"

definition ex_padded_monogr :: element where
  \<comment> \<open>a meeting name with white space around it, then a journal title and the title of
      the volume\<close>
  "ex_padded_monogr =
     node ''monogr'' []
       [Element (tei ''meeting'') [] (Some [CHR 0x0A, CHR '' '', CHR ''I'', CHR ''C'', CHR ''M'',
          CHR ''L'', CHR '' '', CHR 0x09]) None [leaf ''address'' [] ''Vienna''],
        leaf ''title'' [(''level'', ''j'')] ''Nature'',
        leaf ''title'' [(''level'', ''m'')] ''Proc X'']"

definition ex_padded :: element where
  "ex_padded =
     node ''biblStruct'' []
       [node ''analytic'' [] [leaf ''title'' [(''type'', ''main'')] ''A Paper''],
        ex_padded_monogr]"

definition ex_inproceedings_monogr :: element where
  "ex_inproceedings_monogr = node ''monogr'' [] [ex_proceedings_title]"

definition ex_inproceedings :: element where
  \<comment> \<open>a paper in a volume that has a monograph-level title only\<close>
  "ex_inproceedings =
     node ''biblStruct'' []
       [node ''analytic'' [] [leaf ''title'' [(''type'', ''main'')] ''A Paper''],
        ex_inproceedings_monogr]"

section \<open>The loop over the fragments\<close>

lemma fragments_loop_fst:
  "fst (fragments_loop raises bs acc) =
     acc @ filter keep (map fill_citation (takeWhile (\<lambda>b. \<not> raises b) bs))"
  by (induction bs arbitrary: acc) (simp_all add: Let_def)

lemma takeWhile_always: "takeWhile (\<lambda>b. True) xs = xs"
  by (induction xs) simp_all

section \<open>Each step writes its own fields\<close>

lemma forenames_loop_eq:
  "forenames_loop fs acc =
     acc @ filter (\<lambda>s. s \<noteq> []) (List.map_filter (\<lambda>f. extract_text (Some f)) fs)"
  by (induction fs arbitrary: acc) (simp_all add: List.map_filter_simps split: option.splits)

lemma author_step_authors:
  "authors (author_step a c) = authors c @ (case display_name a of None \<Rightarrow> [] | Some n \<Rightarrow> [n])"
  by (simp add: author_step_def display_name_def family_name_def given_names_def
      forenames_loop_eq Let_def split: option.splits)

lemma author_step_others:
  "title (author_step a c) = title c"
  "proceedings (author_step a c) = proceedings c"
  "year (author_step a c) = year c"
  by (simp_all add: author_step_def Let_def split: option.splits)

lemma authors_loop_authors:
  "authors (authors_loop as c) = authors c @ List.map_filter display_name as"
  by (induction as arbitrary: c)
     (simp_all add: author_step_authors List.map_filter_simps split: option.splits)

lemma authors_loop_others:
  "title (authors_loop as c) = title c"
  "proceedings (authors_loop as c) = proceedings c"
  "year (authors_loop as c) = year c"
  by (induction as arbitrary: c) (simp_all add: author_step_others)

lemma analytic_step_authors:
  "authors (analytic_step b c) =
     authors c @ (case find_desc (tei ''analytic'') b of
                    None \<Rightarrow> []
                  | Some a \<Rightarrow> List.map_filter display_name (findall_desc (tei ''author'') a))"
  by (simp add: analytic_step_def Let_def authors_loop_authors split: option.splits)

lemma analytic_step_others:
  "proceedings (analytic_step b c) = proceedings c"
  "year (analytic_step b c) = year c"
  by (simp_all add: analytic_step_def Let_def authors_loop_others split: option.splits)

lemma monogr_title_step_others:
  "authors (monogr_title_step b c) = authors c"
  "proceedings (monogr_title_step b c) = proceedings c"
  "year (monogr_title_step b c) = year c"
  by (simp_all add: monogr_title_step_def split: option.splits)

lemma proceedings_step_others:
  "title (proceedings_step b c) = title c"
  "authors (proceedings_step b c) = authors c"
  "year (proceedings_step b c) = year c"
  by (simp_all add: proceedings_step_def Let_def split: option.splits)

lemma date_step_others:
  "title (date_step d c) = title c"
  "authors (date_step d c) = authors c"
  "proceedings (date_step d c) = proceedings c"
  by (simp_all add: date_step_def Let_def split: option.splits)

lemma year_step_others:
  "title (year_step b c) = title c"
  "authors (year_step b c) = authors c"
  "proceedings (year_step b c) = proceedings c"
  by (simp_all add: year_step_def date_step_others split: option.splits)

section \<open>The title and the venue of a filled record\<close>

lemma py_strip_Nil: "py_strip [] = []"
  by (simp add: py_strip_def)

lemma first_rule_single: "first_rule [x] = x"
  by (cases x) simp_all

lemma extract_all_text_Some: "extract_all_text (Some t) = title_text t"
  by (simp add: extract_all_text_def title_text_def)

lemma analytic_step_title:
  "title (analytic_step b new_citation) = analytic_title b"
  by (simp add: analytic_step_def analytic_title_def Let_def authors_loop_others
      extract_all_text_Some new_citation_def split: option.splits)

lemma monogr_title_step_title:
  "title (monogr_title_step b c) =
     (if truthy (title c) then title c else first_rule [monogr_title b, title c])"
  by (cases "title c")
     (simp_all add: monogr_title_step_def monogr_title_def extract_all_text_Some
      split: option.splits)

lemma fill_citation_title:
  "title (fill_citation b) =
     (if truthy (analytic_title b) then analytic_title b
      else first_rule [monogr_title b, analytic_title b])"
  by (simp add: fill_citation_def year_step_others proceedings_step_others
      monogr_title_step_title analytic_step_title)

lemma extract_text_meeting:
  "(case extract_text (Some e) of
      None \<Rightarrow> None
    | Some s \<Rightarrow> if s \<noteq> [] then Some s else None) =
   (case el_text e of
      None \<Rightarrow> None
    | Some x \<Rightarrow> if py_strip x \<noteq> [] then Some (py_strip x) else None)"
  by (cases "el_text e") (auto simp add: extract_text_def py_strip_Nil)

lemma meeting_step:
  "proceedings c = None \<Longrightarrow>
   proceedings
     (case find_child (tei ''meeting'') monogr of
        None \<Rightarrow> c
      | Some meeting_elem \<Rightarrow>
          (let meeting_text = extract_text (Some meeting_elem)
           in if truthy meeting_text then c\<lparr>proceedings := meeting_text\<rparr> else c))
   = meeting_name monogr"
proof (cases "find_child (tei ''meeting'') monogr")
  case None
  assume "proceedings c = None"
  with None show ?thesis by (simp add: meeting_name_def)
next
  case (Some e)
  assume c: "proceedings c = None"
  have "meeting_name monogr =
      (case extract_text (Some e) of
         None \<Rightarrow> None
       | Some s \<Rightarrow> if s \<noteq> [] then Some s else None)"
    using Some by (simp add: meeting_name_def extract_text_meeting)
  with Some c show ?thesis
    by (cases "extract_text (Some e)") (simp_all add: Let_def)
qed

lemma proceedings_step_proceedings:
  assumes "proceedings c = None"
  shows "proceedings (proceedings_step b c) =
     (case find_desc (tei ''monogr'') b of
        None \<Rightarrow> None
      | Some m \<Rightarrow> first_rule [meeting_name m, journal_name m, monograph_name (title c) m])"
proof (cases "find_desc (tei ''monogr'') b")
  case None
  with assms show ?thesis by (simp add: proceedings_step_def)
next
  case (Some m)
  let ?c1 = "case find_child (tei ''meeting'') m of
        None \<Rightarrow> c
      | Some meeting_elem \<Rightarrow>
          (let meeting_text = extract_text (Some meeting_elem)
           in if truthy meeting_text then c\<lparr>proceedings := meeting_text\<rparr> else c)"
  have p: "proceedings ?c1 = meeting_name m"
    using assms by (rule meeting_step)
  have t: "title ?c1 = title c"
    by (simp add: Let_def split: option.splits)
  have ne: "meeting_name m = Some s \<Longrightarrow> s \<noteq> []" for s
    by (auto simp add: meeting_name_def split: option.splits if_splits)
  show ?thesis
  proof (cases "meeting_name m")
    case None
    with Some p t show ?thesis
      by (simp add: proceedings_step_def journal_name_def monograph_name_def
          extract_all_text_Some Let_def split: option.splits)
  next
    case (Some s)
    with ne have "s \<noteq> []" by simp
    with Some \<open>find_desc (tei ''monogr'') b = Some m\<close> p show ?thesis
      by (simp add: proceedings_step_def Let_def)
  qed
qed

lemma fill_citation_proceedings:
  "proceedings (fill_citation b) =
     (case find_desc (tei ''monogr'') b of
        None \<Rightarrow> None
      | Some m \<Rightarrow>
          first_rule [meeting_name m, journal_name m,
                      monograph_name (title (fill_citation b)) m])"
proof -
  let ?c = "monogr_title_step b (analytic_step b new_citation)"
  have "proceedings ?c = None"
    by (simp add: monogr_title_step_others analytic_step_others new_citation_def)
  then have r: "proceedings (proceedings_step b ?c) =
     (case find_desc (tei ''monogr'') b of
        None \<Rightarrow> None
      | Some m \<Rightarrow> first_rule [meeting_name m, journal_name m, monograph_name (title ?c) m])"
    by (rule proceedings_step_proceedings)
  have t: "title (fill_citation b) = title ?c"
    by (simp add: fill_citation_def year_step_others proceedings_step_others)
  have p: "proceedings (fill_citation b) = proceedings (proceedings_step b ?c)"
    by (simp add: fill_citation_def year_step_others)
  show ?thesis
    unfolding t p by (rule r)
qed

section \<open>The year of a filled record\<close>

lemma year_here_iff:
  "year_here (if pre = [] then None else Some (last pre)) s
     = whole_year_at (pre @ s) (length pre)"
proof (induction "if pre = [] then None else Some (last pre)" s rule: year_here.induct)
  case (1 a b c d rest)
  then show ?case
    by (cases rest) (auto simp add: whole_year_at_def nth_append last_conv_nth)
qed (auto simp add: whole_year_at_def)


lemma year_search_positions:
  "year_search (if pre = [] then None else Some (last pre)) s =
     map_option (\<lambda>i. take 4 (drop i (pre @ s)))
       (first (filter (whole_year_at (pre @ s)) [length pre..<length pre + length s]))"
proof (induction s arbitrary: pre)
  case Nil
  then show ?case by (simp add: first_def)
next
  case (Cons c cs)
  have ih: "year_search (Some c) cs =
     map_option (\<lambda>i. take 4 (drop i (pre @ c # cs)))
       (first (filter (whole_year_at (pre @ c # cs))
          [Suc (length pre)..<Suc (length pre + length cs)]))"
    using Cons.IH [of "pre @ [c]"] by simp
  have up: "[length pre..<length pre + length (c # cs)] =
      length pre # [Suc (length pre)..<Suc (length pre + length cs)]"
    using upt_conv_Cons [of "length pre" "length pre + length (c # cs)"] by simp
  show ?case
    unfolding up
    by (simp add: year_here_iff [of pre "c # cs"] ih first_def del: year_here.simps)
qed

lemma year_search_first_whole_year: "year_search None s = first_whole_year s"
  using year_search_positions [of "[]" s] by (simp add: first_whole_year_def)

lemma digit_val_bounds: "py_isdigit c \<Longrightarrow> 0 \<le> digit_val c \<and> digit_val c \<le> 9"
  by (simp add: py_isdigit_def digit_val_def Let_def)

lemma parse_digits_bound:
  "parse_digits u acc s = Some n \<Longrightarrow> 0 \<le> acc \<Longrightarrow> acc < 10 ^ k \<Longrightarrow>
     0 \<le> n \<and> n < 10 ^ (k + length s)"
proof (induction s arbitrary: u acc k)
  case Nil
  then show ?case by (simp split: if_splits)
next
  case (Cons c cs)
  show ?case
  proof (cases "py_isdigit c")
    case True
    then have d: "0 \<le> digit_val c \<and> digit_val c \<le> 9"
      by (rule digit_val_bounds)
    from True Cons.prems have p: "parse_digits False (acc * 10 + digit_val c) cs = Some n"
      by simp
    have "acc * 10 + digit_val c < 10 ^ Suc k"
      using d Cons.prems(2,3) by simp
    moreover have "0 \<le> acc * 10 + digit_val c"
      using d Cons.prems(2) by simp
    ultimately have "0 \<le> n \<and> n < 10 ^ (Suc k + length cs)"
      using Cons.IH [OF p] by blast
    then show ?thesis by simp
  next
    case False
    with Cons.prems have p: "parse_digits True acc cs = Some n"
      by (simp split: if_splits)
    have "0 \<le> n \<and> n < 10 ^ (k + length cs)"
      using Cons.IH [OF p Cons.prems(2,3)] .
    moreover have "(10::int) ^ (k + length cs) \<le> 10 ^ (k + length (c # cs))"
      by simp
    ultimately show ?thesis by linarith
  qed
qed

lemma parse_unsigned_bound:
  "parse_unsigned s = Some n \<Longrightarrow> 0 \<le> n \<and> n < 10 ^ length s"
proof (cases s)
  case Nil
  assume "parse_unsigned s = Some n"
  with Nil show ?thesis by (simp add: parse_unsigned_def)
next
  case (Cons c cs)
  assume a: "parse_unsigned s = Some n"
  with Cons have d: "py_isdigit c" and p: "parse_digits False (digit_val c) cs = Some n"
    by (simp_all add: parse_unsigned_def split: if_splits)
  have "0 \<le> digit_val c" and "digit_val c < 10 ^ 1"
    using digit_val_bounds [OF d] by simp_all
  from parse_digits_bound [OF p this] Cons show ?thesis by simp
qed


lemma int_strip_length:
  "length (rev (dropWhile int_isspace (rev (dropWhile int_isspace s)))) \<le> length s"
proof -
  have "length (dropWhile int_isspace (rev (dropWhile int_isspace s)))
      \<le> length (rev (dropWhile int_isspace s))"
    by (rule length_dropWhile_le)
  also have "\<dots> \<le> length s"
    by (simp add: length_dropWhile_le)
  finally show ?thesis by simp
qed

lemma py_int_bound:
  assumes "py_int s = Some n" and "length s \<le> 4"
  shows "- 999 \<le> n \<and> n \<le> 9999"
proof -
  let ?t = "rev (dropWhile int_isspace (rev (dropWhile int_isspace s)))"
  have len: "length ?t \<le> 4"
    using int_strip_length [of s] assms(2) by linarith
  show ?thesis
  proof (cases ?t)
    case Nil
    with assms(1) show ?thesis by (simp add: py_int_def)
  next
    case (Cons c cs)
    with len have lcs: "length cs \<le> 3" by simp
    have p3: "(10::int) ^ length cs \<le> 10 ^ 3"
      using lcs by (intro power_increasing) simp_all
    have p4: "(10::int) ^ length (c # cs) \<le> 10 ^ 4"
      using lcs by (intro power_increasing) simp_all
    consider (minus) "c = CHR ''-''" | (plus) "c \<noteq> CHR ''-''" "c = CHR ''+''"
      | (digits) "c \<noteq> CHR ''-''" "c \<noteq> CHR ''+''"
      by blast
    then show ?thesis
    proof cases
      case minus
      with assms(1) Cons obtain m where m: "parse_unsigned cs = Some m" and n: "n = - m"
        by (auto simp add: py_int_def)
      from parse_unsigned_bound [OF m] p3 n show ?thesis by simp
    next
      case plus
      with assms(1) Cons have m: "parse_unsigned cs = Some n"
        by (simp add: py_int_def)
      from parse_unsigned_bound [OF m] p3 show ?thesis by simp
    next
      case digits
      with assms(1) Cons have m: "parse_unsigned (c # cs) = Some n"
        by (simp add: py_int_def)
      from parse_unsigned_bound [OF m] p4 show ?thesis by simp
    qed
  qed
qed

lemma year_search_shape:
  "year_search prev s = Some m \<Longrightarrow>
     \<exists>a b c d. m = [a, b, c, d]
       \<and> (a = CHR ''1'' \<and> b = CHR ''9'' \<or> a = CHR ''2'' \<and> b = CHR ''0'')
       \<and> py_isdigit c \<and> py_isdigit d"
proof (induction prev s rule: year_search.induct)
  case (1 prev)
  then show ?case by simp
next
  case (2 prev x xs)
  show ?case
  proof (cases "year_here prev (x # xs)")
    case True
    then obtain b c d rest where xs: "xs = b # c # d # rest"
      by (cases "(prev, x # xs)" rule: year_here.cases) auto
    with True 2 show ?thesis by auto
  next
    case False
    with 2 show ?thesis by simp
  qed
qed

lemma digit_not_int_space: "py_isdigit c \<Longrightarrow> \<not> int_isspace c"
  by (simp add: py_isdigit_def int_isspace_def Let_def)

lemma digit_not_sign: "py_isdigit c \<Longrightarrow> c \<noteq> CHR ''-'' \<and> c \<noteq> CHR ''+''"
  by (auto simp add: py_isdigit_def Let_def)

lemma py_int_four_digits:
  assumes "py_isdigit a" "py_isdigit b" "py_isdigit c" "py_isdigit d"
  shows "py_int [a, b, c, d] =
     Some (((digit_val a * 10 + digit_val b) * 10 + digit_val c) * 10 + digit_val d)"
  using assms digit_not_int_space [of a] digit_not_int_space [of d] digit_not_sign [of a]
  by (simp add: py_int_def parse_unsigned_def)

lemma py_int_year_match:
  assumes "year_search prev s = Some m"
  shows "\<exists>n. py_int m = Some n \<and> 1900 \<le> n \<and> n \<le> 2099"
proof -
  from year_search_shape [OF assms] obtain a b c d where m: "m = [a, b, c, d]"
    and ab: "a = CHR ''1'' \<and> b = CHR ''9'' \<or> a = CHR ''2'' \<and> b = CHR ''0''"
    and c: "py_isdigit c" and d: "py_isdigit d"
    by blast
  from ab have da: "py_isdigit a" and db: "py_isdigit b"
    and v: "digit_val a * 10 + digit_val b = 19 \<or> digit_val a * 10 + digit_val b = 20"
    by (auto simp add: py_isdigit_def digit_val_def)
  from py_int_four_digits [OF da db c d] m v digit_val_bounds [OF c] digit_val_bounds [OF d]
  show ?thesis by auto
qed


lemma py_int_Nil: "py_int [] = None"
  by (simp add: py_int_def)

lemma first_whole_year_Nil: "first_whole_year [] = None"
  by (simp add: first_whole_year_def first_def)

lemma text_step_year:
  "(case extract_text (Some d) of
      None \<Rightarrow> c
    | Some date_text \<Rightarrow>
        if date_text \<noteq> [] then
          (case year_search None date_text of
             None \<Rightarrow> c
           | Some year_match \<Rightarrow>
               (case py_int year_match of
                  None \<Rightarrow> c
                | Some n \<Rightarrow> c\<lparr>year := Some n\<rparr>))
        else c) =
   (case text_year d of None \<Rightarrow> c | Some n \<Rightarrow> c\<lparr>year := Some n\<rparr>)"
proof (cases "el_text d")
  case None
  then show ?thesis by (simp add: extract_text_def text_year_def)
next
  case (Some x)
  show ?thesis
  proof (cases "py_strip x = []")
    case True
    with Some show ?thesis
      by (simp add: extract_text_def text_year_def first_whole_year_Nil)
  next
    case False
    then have "x \<noteq> []" by (auto simp add: py_strip_Nil)
    with Some False show ?thesis
      by (simp add: extract_text_def text_year_def year_search_first_whole_year
          split: option.splits)
  qed
qed

lemma date_step_year:
  assumes "year c = None"
  shows "year (date_step d c) = (case when_year d of Some n \<Rightarrow> Some n | None \<Rightarrow> text_year d)"
proof (cases "when_year d")
  case None
  then have "(case get d ''when'' of
                  None \<Rightarrow> c
                | Some year_attr \<Rightarrow>
                    if year_attr \<noteq> [] then
                      (case py_int (take 4 year_attr) of
                         None \<Rightarrow> c
                       | Some n \<Rightarrow> c\<lparr>year := Some n\<rparr>)
                    else c) = c"
    by (simp add: when_year_def split: option.splits)
  then show ?thesis
    using assms None
    by (simp add: date_step_def Let_def text_step_year split: option.splits)
next
  case (Some n)
  then obtain a where a: "get d ''when'' = Some a" and n: "py_int (take 4 a) = Some n"
    by (auto simp add: when_year_def split: option.splits)
  from n have "a \<noteq> []" by (auto simp add: py_int_Nil)
  with a n Some show ?thesis
    by (simp add: date_step_def Let_def)
qed

lemma fill_citation_year:
  "year (fill_citation b) =
     (case date_element b of
        None \<Rightarrow> None
      | Some d \<Rightarrow> (case when_year d of Some n \<Rightarrow> Some n | None \<Rightarrow> text_year d))"
proof -
  let ?c = "proceedings_step b (monogr_title_step b (analytic_step b new_citation))"
  have y: "year ?c = None"
    by (simp add: proceedings_step_others monogr_title_step_others analytic_step_others
        new_citation_def)
  show ?thesis
  proof (cases "date_element b")
    case None
    then have "year_step b ?c = ?c"
      by (auto simp add: year_step_def date_element_def split: option.splits)
    with y None show ?thesis by (simp add: fill_citation_def)
  next
    case (Some d)
    then have "year_step b ?c = date_step d ?c"
      by (auto simp add: year_step_def date_element_def split: option.splits)
    with Some date_step_year [OF y, of d] show ?thesis by (simp add: fill_citation_def)
  qed
qed

lemma text_year_range:
  assumes "text_year d = Some n"
  shows "1900 \<le> n \<and> n \<le> 2099"
proof -
  from assms obtain x m where "year_search None (py_strip x) = Some m" and "py_int m = Some n"
    by (auto simp add: text_year_def year_search_first_whole_year split: option.splits)
  with py_int_year_match [of None "py_strip x" m] show ?thesis by auto
qed

lemma when_year_range:
  assumes "when_year d = Some n"
  shows "- 999 \<le> n \<and> n \<le> 9999"
proof -
  from assms obtain a where "py_int (take 4 a) = Some n"
    by (auto simp add: when_year_def split: option.splits)
  then show ?thesis by (rule py_int_bound) simp
qed

section \<open>Reading back what the encoder writes\<close>

lemma hex_roundtrip_list: "list_all (\<lambda>n. hex_val (hex_digit n) = Some n) [0..<16]"
  by code_simp

lemma hex_roundtrip: "n < 16 \<Longrightarrow> hex_val (hex_digit n) = Some n"
  using hex_roundtrip_list by (simp add: list_all_iff)

lemma decode_control:
  assumes "(of_char c :: nat) < 32"
  shows "decode_uXXXX [CHR ''0'', CHR ''0'', hex_digit (of_char c div 16), hex_digit (of_char c mod 16)]
           = Inr c"
proof -
  let ?n = "of_char c :: nat"
  have a: "hex_val (hex_digit (?n div 16)) = Some (?n div 16)"
    using assms by (intro hex_roundtrip) simp
  have b: "hex_val (hex_digit (?n mod 16)) = Some (?n mod 16)"
    by (intro hex_roundtrip) simp
  have z: "hex_val CHR ''0'' = Some 0"
    by (simp add: hex_val_def)
  have "char_of (?n div 16 * 16 + ?n mod 16) = c"
    by simp
  then show ?thesis
    by (simp add: decode_uXXXX_def a b z)
qed

lemma scanstring_escape_char:
  "scanstring chunks (escape_char c @ rest) = scanstring (chunks @ [c]) rest"
proof -
  consider (special) "c = CHR 0x5C \<or> c = CHR 0x22 \<or> c = CHR 0x08 \<or> c = CHR 0x0C
      \<or> c = CHR 0x0A \<or> c = CHR 0x0D \<or> c = CHR 0x09"
    | (control) "c \<noteq> CHR 0x5C" "c \<noteq> CHR 0x22" "c \<noteq> CHR 0x08" "c \<noteq> CHR 0x0C"
        "c \<noteq> CHR 0x0A" "c \<noteq> CHR 0x0D" "c \<noteq> CHR 0x09" "(of_char c :: nat) < 32"
    | (plain) "c \<noteq> CHR 0x5C" "c \<noteq> CHR 0x22" "\<not> (of_char c :: nat) < 32"
    by blast
  then show ?thesis
  proof cases
    case special
    then show ?thesis
      by (auto simp add: escape_char_def backslash_def)
  next
    case control
    then show ?thesis
      by (simp add: escape_char_def decode_control)
  next
    case plain
    then have "escape_char c = [c]"
      by (auto simp add: escape_char_def)
    with plain show ?thesis by simp
  qed
qed

lemma scanstring_escaped:
  "scanstring chunks (concat (map escape_char s) @ CHR 0x22 # rest) = Inr (chunks @ s, rest)"
  by (induction s arbitrary: chunks) (simp_all add: scanstring_escape_char)

lemma scan_once_string:
  "scan_once (Suc n) (encode_basestring s @ rest) = Inr (JStr s, rest)"
  by (simp add: encode_basestring_def scanstring_escaped)

lemma decimal_digit_list:
  "list_all (\<lambda>k. py_isdigit (hex_digit k) \<and> digit_val (hex_digit k) = int k
      \<and> (hex_digit k = CHR ''0'' \<longleftrightarrow> k = 0)) [0..<10]"
  by code_simp

lemma decimal_digit:
  assumes "k < 10"
  shows "py_isdigit (hex_digit k)" and "digit_val (hex_digit k) = int k"
    and "hex_digit k = CHR ''0'' \<longleftrightarrow> k = 0"
  using decimal_digit_list assms by (simp_all add: list_all_iff)

lemma digits_of_small: "n < 10 \<Longrightarrow> digits_of n = [hex_digit n]"
  by (subst digits_of.simps) simp

lemma digits_of_large:
  "\<not> n < 10 \<Longrightarrow> digits_of n = digits_of (n div 10) @ [hex_digit (n mod 10)]"
  by (subst digits_of.simps) simp

lemma digits_of_digits: "list_all py_isdigit (digits_of n)"
proof (induction n rule: digits_of.induct)
  case (1 n)
  show ?case
  proof (cases "n < 10")
    case True
    then show ?thesis by (simp add: digits_of_small decimal_digit)
  next
    case False
    with 1 show ?thesis by (simp add: digits_of_large decimal_digit)
  qed
qed

lemma digits_of_positive:
  "0 < n \<Longrightarrow> \<exists>c cs. digits_of n = c # cs \<and> c \<noteq> CHR ''0''"
proof (induction n rule: digits_of.induct)
  case (1 n)
  show ?case
  proof (cases "n < 10")
    case True
    with 1 show ?thesis by (simp add: digits_of_small decimal_digit)
  next
    case False
    then have "0 < n div 10" by simp
    with 1 False obtain c cs where "digits_of (n div 10) = c # cs" "c \<noteq> CHR ''0''"
      by blast
    with False show ?thesis by (simp add: digits_of_large)
  qed
qed

lemma digits_of_head:
  "\<exists>c cs. digits_of n = c # cs \<and> py_isdigit c \<and> (c = CHR ''0'' \<longrightarrow> cs = [])"
proof (cases "n = 0")
  case True
  then show ?thesis by (simp add: digits_of_small decimal_digit)
next
  case False
  then obtain c cs where h: "digits_of n = c # cs" "c \<noteq> CHR ''0''"
    using digits_of_positive [of n] by auto
  with digits_of_digits [of n] show ?thesis by simp
qed

lemma parse_digits_all:
  "list_all py_isdigit ds \<Longrightarrow> parse_digits False acc ds = Some (dec_val acc ds)"
  by (induction ds arbitrary: acc) (simp_all add: dec_val_def)

lemma dec_val_digits_of: "dec_val acc (digits_of n) = acc * 10 ^ length (digits_of n) + int n"
proof (induction n arbitrary: acc rule: digits_of.induct)
  case (1 n)
  show ?case
  proof (cases "n < 10")
    case True
    then show ?thesis by (simp add: digits_of_small decimal_digit dec_val_def)
  next
    case False
    have "dec_val acc (digits_of n)
        = dec_val acc (digits_of (n div 10)) * 10 + int (n mod 10)"
      using False by (simp add: digits_of_large dec_val_def decimal_digit)
    also have "\<dots> = (acc * 10 ^ length (digits_of (n div 10)) + int (n div 10)) * 10
        + int (n mod 10)"
      using 1 False by simp
    also have "\<dots> = acc * 10 ^ length (digits_of n) + int n"
      using False by (simp add: digits_of_large algebra_simps zdiv_int zmod_int)
    finally show ?thesis .
  qed
qed

lemma parse_unsigned_digits_of: "parse_unsigned (digits_of n) = Some (int n)"
proof -
  obtain c cs where h: "digits_of n = c # cs" "py_isdigit c"
    using digits_of_head [of n] by blast
  have all: "list_all py_isdigit cs"
    using digits_of_digits [of n] h by simp
  have "parse_unsigned (digits_of n) = Some (dec_val (digit_val c) cs)"
    using h all by (simp add: parse_unsigned_def parse_digits_all)
  also have "dec_val (digit_val c) cs = dec_val 0 (digits_of n)"
    using h by (simp add: dec_val_def)
  also have "\<dots> = int n"
    by (simp add: dec_val_digits_of)
  finally show ?thesis .
qed

lemma digit_facts:
  assumes "py_isdigit c"
  shows "\<not> int_isspace c" "c \<noteq> CHR ''-''" "c \<noteq> CHR ''+''" "c \<noteq> CHR ''n''"
    "c \<noteq> CHR ''t''" "c \<noteq> CHR ''f''" "c \<noteq> CHR '',''" "c \<noteq> CHR 0x0A" "\<not> is_json_ws c"
    "c \<noteq> CHR '']''" "c \<noteq> CHR 0x22" "c \<noteq> CHR ''{''" "c \<noteq> CHR ''[''" "c \<noteq> CHR ''N''"
    "c \<noteq> CHR ''I''"
  using assms by (auto simp add: py_isdigit_def int_isspace_def is_json_ws_def Let_def)

lemma int_strip_id:
  assumes "s \<noteq> []" and "\<not> int_isspace (hd s)" and "\<not> int_isspace (last s)"
  shows "rev (dropWhile int_isspace (rev (dropWhile int_isspace s))) = s"
proof -
  have a: "dropWhile int_isspace s = s"
    using assms by (simp add: dropWhile_eq_self_iff)
  have "dropWhile int_isspace (rev s) = rev s"
    using assms by (simp add: dropWhile_eq_self_iff hd_rev)
  with a show ?thesis by simp
qed

lemma digits_of_last: "py_isdigit (last (digits_of n))"
proof -
  obtain c cs where "digits_of n = c # cs"
    using digits_of_head [of n] by blast
  then have "last (digits_of n) \<in> set (digits_of n)"
    by (intro last_in_set) simp
  with digits_of_digits [of n] show ?thesis
    by (simp add: list_all_iff)
qed

lemma py_int_int_repr: "py_int (int_repr i) = Some i"
proof -
  obtain c cs where h: "digits_of (nat \<bar>i\<bar>) = c # cs" "py_isdigit c"
    using digits_of_head [of "nat \<bar>i\<bar>"] by blast
  have l: "\<not> int_isspace (last (digits_of (nat \<bar>i\<bar>)))"
    using digits_of_last [of "nat \<bar>i\<bar>"] by (rule digit_facts)
  show ?thesis
  proof (cases "i < 0")
    case True
    then have r: "int_repr i = CHR ''-'' # digits_of (nat \<bar>i\<bar>)"
      by (simp add: int_repr_def abs_if)
    have "rev (dropWhile int_isspace (rev (dropWhile int_isspace (int_repr i)))) = int_repr i"
      using l h unfolding r by (intro int_strip_id) (simp_all add: int_isspace_def)
    then have "py_int (int_repr i) = map_option uminus (parse_unsigned (digits_of (nat \<bar>i\<bar>)))"
      by (simp add: py_int_def r)
    with True show ?thesis
      by (simp add: parse_unsigned_digits_of)
  next
    case False
    then have r: "int_repr i = digits_of (nat \<bar>i\<bar>)"
      by (simp add: int_repr_def abs_if)
    have "rev (dropWhile int_isspace (rev (dropWhile int_isspace (int_repr i)))) = int_repr i"
      using l h digit_facts(1) [OF h(2)] unfolding r by (intro int_strip_id) simp_all
    then have "py_int (int_repr i) = parse_unsigned (digits_of (nat \<bar>i\<bar>))"
      using h digit_facts(2,3) [OF h(2)] by (simp add: py_int_def r)
    with False show ?thesis
      by (simp add: parse_unsigned_digits_of)
  qed
qed

lemma follow_ok_cases:
  assumes "follow_ok rest"
  obtains "rest = []" | c cs where "rest = c # cs" "c = CHR '','' \<or> c = CHR 0x0A"
  using assms by (cases rest) (auto simp add: follow_ok_def)

lemma takeWhile_digits_follow:
  assumes "list_all py_isdigit ds" and "follow_ok rest"
  shows "takeWhile py_isdigit (ds @ rest) = ds"
proof -
  have "takeWhile py_isdigit rest = []"
    using assms(2) by (rule follow_ok_cases) (auto simp add: py_isdigit_def)
  with assms(1) show ?thesis
    by (simp add: takeWhile_append2 list_all_iff)
qed

lemma follow_ok_parts:
  assumes "follow_ok rest"
  shows "frac_part rest = []" and "exp_part rest = []"
  using assms
  by (rule follow_ok_cases; auto simp add: frac_part_def exp_part_def split: list.splits)+

lemma unsigned_part_digits:
  assumes "follow_ok rest"
  shows "unsigned_part (digits_of m @ rest) = digits_of m"
proof -
  obtain c cs where h: "digits_of m = c # cs" "py_isdigit c" "c = CHR ''0'' \<longrightarrow> cs = []"
    using digits_of_head [of m] by blast
  have all: "list_all py_isdigit cs"
    using digits_of_digits [of m] h by simp
  have "takeWhile py_isdigit (cs @ rest) = cs"
    using all assms by (rule takeWhile_digits_follow)
  with h show ?thesis
    by (simp add: unsigned_part_def)
qed

lemma integer_part_int_repr:
  assumes "follow_ok rest"
  shows "integer_part (int_repr i @ rest) = int_repr i"
proof -
  let ?ds = "digits_of (nat \<bar>i\<bar>)"
  obtain c cs where h: "?ds = c # cs" "py_isdigit c"
    using digits_of_head [of "nat \<bar>i\<bar>"] by blast
  have u: "unsigned_part (?ds @ rest) = ?ds"
    by (rule unsigned_part_digits [OF assms])
  have ne: "?ds \<noteq> []"
    using h by simp
  show ?thesis
  proof (cases "i < 0")
    case True
    then have r: "int_repr i = CHR ''-'' # ?ds"
      by (simp add: int_repr_def abs_if)
    show ?thesis
      unfolding r by (simp add: integer_part_def u ne)
  next
    case False
    then have r: "int_repr i = ?ds"
      by (simp add: int_repr_def abs_if)
    have "integer_part (c # cs @ rest) = unsigned_part (c # cs @ rest)"
      using digit_facts(2) [OF h(2)] by (simp add: integer_part_def)
    then have "integer_part (?ds @ rest) = unsigned_part (?ds @ rest)"
      by (simp add: h)
    then show ?thesis
      unfolding r by (simp only: u)
  qed
qed

lemma int_repr_head:
  "\<exists>c cs. int_repr i = c # cs \<and> (c = CHR ''-'' \<or> py_isdigit c)"
  using digits_of_head [of "nat i"] by (auto simp add: int_repr_def)

lemma match_number_int_repr:
  assumes "follow_ok rest"
  shows "match_number (int_repr i @ rest) = Some (int_repr i, [], [], rest)"
proof -
  have "int_repr i \<noteq> []"
    using int_repr_head [of i] by auto
  then show ?thesis
    by (simp add: match_number_def integer_part_int_repr [OF assms] follow_ok_parts [OF assms])
qed

lemma scan_constant_int:
  assumes "follow_ok rest"
  shows "scan_constant (int_repr i @ rest) = Inr (JInt i, rest)"
proof -
  obtain c cs where h: "int_repr i = c # cs" "c = CHR ''-'' \<or> py_isdigit c"
    using int_repr_head [of i] by blast
  then have n: "c \<noteq> CHR ''n''" "c \<noteq> CHR ''t''" "c \<noteq> CHR ''f''"
    using digit_facts(4,5,6) [of c] by auto
  have "take 4 (int_repr i @ rest) \<noteq> ''null''" "take 4 (int_repr i @ rest) \<noteq> ''true''"
    "take 5 (int_repr i @ rest) \<noteq> ''false''"
    unfolding h using n by (auto simp add: take_Cons')
  then show ?thesis
    by (simp add: scan_constant_def py_int_int_repr match_number_int_repr [OF assms])
qed

lemma skip_ws_spaces: "skip_ws (replicate k CHR '' '' @ s) = skip_ws s"
  by (induction k) (simp_all add: skip_ws_def is_json_ws_def)

lemma skip_ws_newline_indent: "skip_ws (newline_indent l @ s) = skip_ws s"
proof -
  have "skip_ws (CHR 0x0A # replicate (2 * l) CHR '' '' @ s) = skip_ws (replicate (2 * l) CHR '' '' @ s)"
    by (simp add: skip_ws_def is_json_ws_def)
  then show ?thesis
    by (simp add: newline_indent_def skip_ws_spaces)
qed

lemma skip_ws_keep: "\<not> is_json_ws c \<Longrightarrow> skip_ws (c # s) = c # s"
  by (simp add: skip_ws_def)

lemma skip_ws_space: "skip_ws (CHR '' '' # s) = skip_ws s"
  by (simp add: skip_ws_def is_json_ws_def)

lemma iterencode_head: "\<exists>c cs. iterencode l v = c # cs \<and> value_head c"
proof (cases v)
  case (JInt i)
  obtain c cs where "int_repr i = c # cs" "c = CHR ''-'' \<or> py_isdigit c"
    using int_repr_head [of i] by blast
  with JInt digit_facts(9,10) [of c] show ?thesis
    by (auto simp add: value_head_def is_json_ws_def)
qed (auto simp add: value_head_def is_json_ws_def encode_basestring_def)

lemma dict_set_fresh: "k \<notin> fst ` set ps \<Longrightarrow> dict_set ps k v = ps @ [(k, v)]"
  by (induction ps) auto

lemma follow_ok_newline_indent: "follow_ok (newline_indent l @ s)"
  by (simp add: follow_ok_def newline_indent_def)

lemma follow_ok_comma: "follow_ok (CHR '','' # s)"
  by (simp add: follow_ok_def)

lemma py_join_head:
  assumes "vs \<noteq> []"
  shows "\<exists>c cs. py_join sep (map (iterencode l) vs) @ after = c # cs \<and> value_head c"
proof -
  from assms obtain v ws where vs: "vs = v # ws"
    by (cases vs) auto
  obtain c cs where h: "iterencode l v = c # cs" "value_head c"
    using iterencode_head by blast
  then show ?thesis
    unfolding vs by (cases ws) auto
qed

lemma parse_array_items:
  assumes "\<And>v l rest n. v \<in> set vs \<Longrightarrow> follow_ok rest \<Longrightarrow>
             length (iterencode l v @ rest) \<le> n \<Longrightarrow>
             scan_once n (iterencode l v @ rest) = Inr (v, rest)"
    and "vs \<noteq> []"
    and "length (py_join (CHR '','' # newline_indent (Suc l)) (map (iterencode (Suc l)) vs)
                 @ newline_indent l @ CHR '']'' # rest) \<le> n"
  shows "parse_array n acc
           (py_join (CHR '','' # newline_indent (Suc l)) (map (iterencode (Suc l)) vs)
              @ newline_indent l @ CHR '']'' # rest)
         = Inr (JArr (acc @ vs), rest)"
  using assms
proof (induction vs arbitrary: acc n)
  case Nil
  then show ?case by simp
next
  case (Cons v ws)
  let ?sep = "CHR '','' # newline_indent (Suc l)"
  let ?close = "newline_indent l @ CHR '']'' # rest"
  from Cons.prems(3) obtain m where n: "n = Suc m"
    using iterencode_head [of "Suc l" v] by (cases n; cases ws) auto
  show ?case
  proof (cases ws)
    case Nil
    have "length (iterencode (Suc l) v @ ?close) \<le> Suc m"
      using Cons.prems(3) n Nil by simp
    then have s: "scan_once (Suc m) (iterencode (Suc l) v @ ?close) = Inr (v, ?close)"
      by (intro Cons.prems(1) follow_ok_newline_indent) simp
    have w: "skip_ws ?close = CHR '']'' # rest"
      by (simp add: skip_ws_newline_indent skip_ws_keep is_json_ws_def)
    show ?thesis
      unfolding n Nil using s w by (simp del: scan_once.simps)
  next
    case (Cons w ws')
    let ?after = "py_join ?sep (map (iterencode (Suc l)) (w # ws')) @ ?close"
    have t: "py_join ?sep (map (iterencode (Suc l)) (v # ws)) @ ?close
        = iterencode (Suc l) v @ CHR '','' # newline_indent (Suc l) @ ?after"
      unfolding Cons by simp
    have "length (iterencode (Suc l) v @ CHR '','' # newline_indent (Suc l) @ ?after) \<le> Suc m"
      using Cons.prems(3) unfolding t n .
    then have s: "scan_once (Suc m) (iterencode (Suc l) v @ CHR '','' # newline_indent (Suc l) @ ?after)
        = Inr (v, CHR '','' # newline_indent (Suc l) @ ?after)"
      by (intro Cons.prems(1) follow_ok_comma) simp
    have w1: "skip_ws (CHR '','' # newline_indent (Suc l) @ ?after)
        = CHR '','' # newline_indent (Suc l) @ ?after"
      by (simp add: skip_ws_keep is_json_ws_def)
    obtain c cs where h: "?after = c # cs" "value_head c"
      using py_join_head [of "w # ws'" ?sep "Suc l" ?close] by blast
    have w2: "skip_ws (newline_indent (Suc l) @ ?after) = ?after"
      using h by (simp add: skip_ws_newline_indent skip_ws_keep value_head_def)
    have lm: "length ?after \<le> m"
      using Cons.prems(3) unfolding t n by simp
    have ih: "parse_array m (acc @ [v]) ?after = Inr (JArr ((acc @ [v]) @ w # ws'), rest)"
      using Cons.prems(1) lm unfolding Cons
      by (intro Cons.IH [unfolded Cons]) simp_all
    show ?thesis
      unfolding t n using s w1 w2 ih Cons by (simp del: scan_once.simps)
  qed
qed

lemma object_item_tl:
  "object_item level (k, v) @ s =
     CHR 0x22 # concat (map escape_char k) @ CHR 0x22 # CHR '':'' # CHR '' '' # iterencode level v @ s"
  by (simp add: object_item_def encode_basestring_def)

lemma py_join_items_head:
  assumes "ps \<noteq> []"
  shows "\<exists>cs. py_join sep (map (object_item l) ps) @ after = CHR 0x22 # cs"
proof -
  from assms obtain p qs where ps: "ps = p # qs"
    by (cases ps) auto
  obtain k v where p: "p = (k, v)"
    by (cases p)
  show ?thesis
    unfolding ps p by (cases qs) (simp_all add: object_item_tl)
qed

lemma parse_object_items:
  assumes "\<And>k v l rest n. (k, v) \<in> set ps \<Longrightarrow> follow_ok rest \<Longrightarrow>
             length (iterencode l v @ rest) \<le> n \<Longrightarrow>
             scan_once n (iterencode l v @ rest) = Inr (v, rest)"
    and "ps \<noteq> []"
    and "distinct (map fst acc @ map fst ps)"
    and "length (tl (py_join (CHR '','' # newline_indent (Suc l)) (map (object_item (Suc l)) ps)
                 @ newline_indent l @ CHR ''}'' # rest)) \<le> n"
  shows "parse_object n acc
           (tl (py_join (CHR '','' # newline_indent (Suc l)) (map (object_item (Suc l)) ps)
              @ newline_indent l @ CHR ''}'' # rest))
         = Inr (JObj (acc @ ps), rest)"
  using assms
proof (induction ps arbitrary: acc n)
  case Nil
  then show ?case by simp
next
  case (Cons p qs)
  obtain k v where p: "p = (k, v)"
    by (cases p)
  let ?sep = "CHR '','' # newline_indent (Suc l)"
  let ?close = "newline_indent l @ CHR ''}'' # rest"
  let ?esc = "concat (map escape_char k)"
  note prems = Cons.prems and IH = Cons.IH
  have fresh: "k \<notin> fst ` set acc"
    using prems(3) p by auto
  show ?case
  proof (cases qs)
    case Nil
    have t: "tl (py_join ?sep (map (object_item (Suc l)) (p # qs)) @ ?close)
        = ?esc @ CHR 0x22 # CHR '':'' # CHR '' '' # iterencode (Suc l) v @ ?close"
      unfolding Nil p by (simp add: object_item_tl)
    from prems(4) obtain m where n: "n = Suc m"
      unfolding t by (cases n) auto
    have "length (iterencode (Suc l) v @ ?close) \<le> Suc m"
      using prems(4) unfolding t n by simp
    then have s: "scan_once (Suc m) (iterencode (Suc l) v @ ?close) = Inr (v, ?close)"
      by (intro prems(1) [of k] follow_ok_newline_indent) (simp add: p)
    obtain c cs where h: "iterencode (Suc l) v = c # cs" "value_head c"
      using iterencode_head by blast
    have w0: "skip_ws (CHR '' '' # iterencode (Suc l) v @ ?close) = iterencode (Suc l) v @ ?close"
      using h by (simp add: skip_ws_space skip_ws_keep value_head_def)
    have w: "skip_ws ?close = CHR ''}'' # rest"
      by (simp add: skip_ws_newline_indent skip_ws_keep is_json_ws_def)
    show ?thesis
      unfolding t n using s w w0 fresh p Nil
      by (simp add: scanstring_escaped skip_ws_keep is_json_ws_def dict_set_fresh
          del: scan_once.simps)
  next
    case (Cons q qs')
    let ?after = "py_join ?sep (map (object_item (Suc l)) (q # qs')) @ ?close"
    let ?value_on = "iterencode (Suc l) v @ CHR '','' # newline_indent (Suc l) @ ?after"
    have t: "tl (py_join ?sep (map (object_item (Suc l)) (p # qs)) @ ?close)
        = ?esc @ CHR 0x22 # CHR '':'' # CHR '' '' # ?value_on"
      unfolding Cons p by (simp add: object_item_tl)
    from prems(4) obtain m where n: "n = Suc m"
      unfolding t by (cases n) auto
    have "length ?value_on \<le> Suc m"
      using prems(4) unfolding t n by simp
    then have s: "scan_once (Suc m) ?value_on
        = Inr (v, CHR '','' # newline_indent (Suc l) @ ?after)"
      by (intro prems(1) [of k] follow_ok_comma) (simp add: p)
    obtain c cs where h: "iterencode (Suc l) v = c # cs" "value_head c"
      using iterencode_head by blast
    have w0: "skip_ws (CHR '' '' # ?value_on) = ?value_on"
      using h by (simp add: skip_ws_space skip_ws_keep value_head_def)
    obtain xs where a: "?after = CHR 0x22 # xs"
      using py_join_items_head [of "q # qs'" ?sep "Suc l" ?close] by blast
    have w2: "skip_ws (newline_indent (Suc l) @ ?after) = CHR 0x22 # tl ?after"
      unfolding a by (simp add: skip_ws_newline_indent skip_ws_keep is_json_ws_def)
    have lm: "length (tl ?after) \<le> m"
      using prems(4) unfolding t n a by simp
    have "parse_object m (acc @ [p])
            (tl (py_join ?sep (map (object_item (Suc l)) qs) @ ?close))
          = Inr (JObj ((acc @ [p]) @ qs), rest)"
    proof (rule IH)
      fix k' v' l' rest' n'
      assume "(k', v') \<in> set qs" "follow_ok rest'" "length (iterencode l' v' @ rest') \<le> n'"
      then show "scan_once n' (iterencode l' v' @ rest') = Inr (v', rest')"
        by (intro prems(1) [of k' v']) simp_all
    next
      show "qs \<noteq> []"
        by (simp add: Cons)
    next
      show "distinct (map fst (acc @ [p]) @ map fst qs)"
        using prems(3) by simp
    next
      show "length (tl (py_join ?sep (map (object_item (Suc l)) qs) @ ?close)) \<le> m"
        using lm by (simp add: Cons)
    qed
    then have ih: "parse_object m (acc @ [p]) (tl ?after) = Inr (JObj (acc @ p # qs), rest)"
      by (simp add: Cons)
    show ?thesis
      unfolding t n using s w0 w2 ih fresh p
      by (simp add: scanstring_escaped skip_ws_keep is_json_ws_def dict_set_fresh
          del: scan_once.simps)
  qed
qed

lemma iterencode_JObj:
  "ps \<noteq> [] \<Longrightarrow> iterencode l (JObj ps) =
     CHR ''{'' # newline_indent (Suc l)
       @ py_join (CHR '','' # newline_indent (Suc l)) (map (object_item (Suc l)) ps)
       @ newline_indent l @ ''}''"
  by (simp add: object_item_def)

lemma scan_once_iterencode:
  "distinct_keys v \<Longrightarrow> follow_ok rest \<Longrightarrow> length (iterencode l v @ rest) \<le> n \<Longrightarrow>
     scan_once n (iterencode l v @ rest) = Inr (v, rest)"
proof (induction v arbitrary: l rest n)
  case JNull
  then obtain m where "n = Suc m" by (cases n) auto
  then show ?case by (simp add: scan_constant_def)
next
  case (JBool b)
  then obtain m where "n = Suc m" by (cases n; cases b) auto
  then show ?case by (cases b) (simp_all add: scan_constant_def)
next
  case (JInt i)
  obtain c cs where h: "int_repr i = c # cs" "c = CHR ''-'' \<or> py_isdigit c"
    using int_repr_head [of i] by blast
  with JInt obtain m where n: "n = Suc m" by (cases n) auto
  have "c \<noteq> CHR 0x22" "c \<noteq> CHR ''{''" "c \<noteq> CHR ''[''"
    using h(2) digit_facts(11,12,13) [of c] by auto
  then have "scan_once (Suc m) (int_repr i @ rest) = scan_constant (int_repr i @ rest)"
    by (simp add: h)
  with JInt.prems(2) n show ?case
    by (simp add: scan_constant_int)
next
  case (JStr s)
  then obtain m where "n = Suc m" by (cases n) (auto simp add: encode_basestring_def)
  then show ?case
    using scan_once_string [of m s rest] by simp
next
  case (JArr vs)
  from JArr.prems(3) obtain m where n: "n = Suc m" by (cases n) (auto split: if_splits)
  show ?case
  proof (cases "vs = []")
    case True
    then show ?thesis
      unfolding n by (simp add: skip_ws_keep is_json_ws_def)
  next
    case False
    let ?items = "py_join (CHR '','' # newline_indent (Suc l)) (map (iterencode (Suc l)) vs)
        @ newline_indent l @ CHR '']'' # rest"
    have t: "iterencode l (JArr vs) @ rest = CHR ''['' # newline_indent (Suc l) @ ?items"
      using False by simp
    obtain c cs where h: "?items = c # cs" "value_head c"
      using py_join_head [OF False] by blast
    have w: "skip_ws (newline_indent (Suc l) @ c # cs) = c # cs"
      using h(2) by (simp add: skip_ws_newline_indent skip_ws_keep value_head_def)
    have lm: "length ?items \<le> m"
      using JArr.prems(3) unfolding t n by simp
    have p: "parse_array m [] ?items = Inr (JArr ([] @ vs), rest)"
    proof (rule parse_array_items)
      fix v l' rest' n'
      assume "v \<in> set vs" "follow_ok rest'" "length (iterencode l' v @ rest') \<le> n'"
      with JArr.prems(1) show "scan_once n' (iterencode l' v @ rest') = Inr (v, rest')"
        by (intro JArr.IH) (simp_all add: list_all_iff)
    qed (use False lm in simp_all)
    have "scan_once (Suc m) (CHR ''['' # newline_indent (Suc l) @ ?items)
        = parse_array m [] ?items"
      unfolding h using h(2) by (simp add: w value_head_def del: parse_array.simps)
    with p show ?thesis
      unfolding t n by simp
  qed
next
  case (JObj ps)
  from JObj.prems(3) obtain m where n: "n = Suc m" by (cases n) (auto split: if_splits)
  show ?case
  proof (cases "ps = []")
    case True
    then show ?thesis
      unfolding n by (simp add: skip_ws_keep is_json_ws_def)
  next
    case False
    let ?items = "py_join (CHR '','' # newline_indent (Suc l)) (map (object_item (Suc l)) ps)
        @ newline_indent l @ CHR ''}'' # rest"
    have t: "iterencode l (JObj ps) @ rest = CHR ''{'' # newline_indent (Suc l) @ ?items"
      by (simp only: iterencode_JObj [OF False]) simp
    obtain cs where h: "?items = CHR 0x22 # cs"
      using py_join_items_head [OF False] by blast
    have w: "skip_ws (newline_indent (Suc l) @ CHR 0x22 # cs) = CHR 0x22 # cs"
      by (simp add: skip_ws_newline_indent skip_ws_keep is_json_ws_def)
    have lm: "length (tl ?items) \<le> m"
      using JObj.prems(3) unfolding t n h by simp
    have p: "parse_object m [] (tl ?items) = Inr (JObj ([] @ ps), rest)"
    proof (rule parse_object_items)
      fix k v l' rest' n'
      assume a: "(k, v) \<in> set ps" "follow_ok rest'" "length (iterencode l' v @ rest') \<le> n'"
      from a(1) JObj.prems(1) have "distinct_keys v"
        by (auto simp add: list_all_iff)
      with a show "scan_once n' (iterencode l' v @ rest') = Inr (v, rest')"
        by (intro JObj.IH [of "(k, v)" v]) simp_all
    qed (use False lm JObj.prems(1) in simp_all)
    have "scan_once (Suc m) (CHR ''{'' # newline_indent (Suc l) @ ?items)
        = parse_object m [] (tl ?items)"
      unfolding h by (simp add: w del: parse_object.simps)
    with p show ?thesis
      unfolding t n by simp
  qed
qed

lemma json_loads_dumps:
  assumes "distinct_keys v"
  shows "json_loads (json_dumps v) = Inr v"
proof -
  obtain c cs where h: "iterencode 0 v = c # cs" "value_head c"
    using iterencode_head by blast
  then have w: "skip_ws (iterencode 0 v) = iterencode 0 v"
    by (simp add: skip_ws_keep value_head_def)
  have "scan_once (Suc (length (iterencode 0 v))) (iterencode 0 v @ []) = Inr (v, [])"
    using assms by (intro scan_once_iterencode) (simp_all add: follow_ok_def)
  moreover have "skip_ws [] = []"
    by (simp add: skip_ws_def)
  ultimately show ?thesis
    by (simp add: json_loads_def json_dumps_def w)
qed

section \<open>The claims\<close>

text \<open>
  C2, as stated, fails. The venue taken from a meeting element is not compared with the
  title: a record can carry the same text in both fields.
\<close>

theorem venue_from_meeting_equals_title:
  "keep (fill_citation ex_same_meeting)
   \<and> title (fill_citation ex_same_meeting) = Some ''Neural Information Processing Systems''
   \<and> proceedings (fill_citation ex_same_meeting) = Some ''Neural Information Processing Systems''"
  by code_simp

text \<open>
  C2, amended. When the monograph section offers neither a meeting text nor a title at
  journal level, so that the venue can come from a title at monograph level only, the
  venue, if present, is not equal to the title of the record; in particular, when the
  text of that monograph-level title equals the resolved title, the venue is absent.
\<close>

theorem venue_from_monograph_title_differs:
  assumes "find_desc (tei ''monogr'') b = Some m"
    and "meeting_name m = None"
    and "journal_name m = None"
  shows "(proceedings (fill_citation b) = None
          \<or> proceedings (fill_citation b) \<noteq> title (fill_citation b))
     \<and> (\<forall>p. find_desc_attr (tei ''title'') ''level'' ''m'' m = Some p
            \<and> Some (title_text p) = title (fill_citation b)
          \<longrightarrow> proceedings (fill_citation b) = None)"
proof -
  have "proceedings (fill_citation b) = monograph_name (title (fill_citation b)) m"
    using assms fill_citation_proceedings [of b] by (simp add: first_rule_single)
  then show ?thesis
    by (auto simp add: monograph_name_def split: option.splits if_splits)
qed

theorem venue_from_monograph_title_differs_witness:
  "find_desc (tei ''monogr'') ex_book = Some ex_book_monogr
   \<and> meeting_name ex_book_monogr = None
   \<and> journal_name ex_book_monogr = None
   \<and> find_desc_attr (tei ''title'') ''level'' ''m'' ex_book_monogr = Some ex_book_title
   \<and> Some (title_text ex_book_title) = title (fill_citation ex_book)
   \<and> proceedings (fill_citation ex_book) = None"
proof -
  have m: "find_desc (tei ''monogr'') ex_book = Some ex_book_monogr"
    by code_simp
  have a: "meeting_name ex_book_monogr = None"
    by code_simp
  have j: "journal_name ex_book_monogr = None"
    by code_simp
  have p: "find_desc_attr (tei ''title'') ''level'' ''m'' ex_book_monogr = Some ex_book_title"
    by code_simp
  have t: "Some (title_text ex_book_title) = title (fill_citation ex_book)"
    by code_simp
  have "proceedings (fill_citation ex_book) = None"
    using venue_from_monograph_title_differs [OF m a j] p t by blast
  with m a j p t show ?thesis by simp
qed

text \<open>
  C3. A fragment contributes a record exactly when its resolved title is present and
  not empty or its resolved list of authors is not empty: the records returned for a
  document are those of its fragments that pass this test, in document order, and a
  fragment with neither contributes none.
\<close>

theorem record_emitted_iff_title_or_authors:
  "parse_citations_from_xml never_raises (Inr root) =
     filter (\<lambda>c. truthy (title c) \<or> authors c \<noteq> [])
       (map fill_citation (findall_desc (tei ''biblStruct'') root))"
  by (simp add: parse_citations_from_xml_def fragments_loop_fst never_raises_def
      keep_def [abs_def] takeWhile_always)

theorem record_emitted_iff_title_or_authors_witness:
  "findall_desc (tei ''biblStruct'') ex_doc = [ex_attention, ex_empty, ex_book]
   \<and> title (fill_citation ex_empty) = None \<and> authors (fill_citation ex_empty) = []
   \<and> parse_citations_from_xml never_raises (Inr ex_doc)
       = [fill_citation ex_attention, fill_citation ex_book]"
proof -
  have f: "findall_desc (tei ''biblStruct'') ex_doc = [ex_attention, ex_empty, ex_book]"
    by code_simp
  have e: "title (fill_citation ex_empty) = None" "authors (fill_citation ex_empty) = []"
    by code_simp+
  have a: "truthy (title (fill_citation ex_attention))"
    by code_simp
  have b: "truthy (title (fill_citation ex_book))"
    by code_simp
  show ?thesis
    using record_emitted_iff_title_or_authors [of ex_doc] f e a b by simp
qed

text \<open>
  C4, as stated, fails, whichever way a rule is said to match. A meeting element without
  text stands beside a journal title: the venue is the journal title, so the search
  went on after the meeting element was found. A journal title without text stands
  beside a monograph-level title that differs from the title of the record: the venue
  is the empty text of the journal title, so the rule that yields a text was not tried.
\<close>

theorem venue_rules_do_not_match_alike:
  "find_desc (tei ''monogr'') ex_blank_meeting = Some ex_blank_meeting_monogr
   \<and> find_child (tei ''meeting'') ex_blank_meeting_monogr = Some ex_blank_meeting_elem
   \<and> el_text ex_blank_meeting_elem = None
   \<and> proceedings (fill_citation ex_blank_meeting) = Some ''Nature''
   \<and> find_desc (tei ''monogr'') ex_empty_journal = Some ex_empty_journal_monogr
   \<and> find_child (tei ''meeting'') ex_empty_journal_monogr = None
   \<and> find_desc_attr (tei ''title'') ''level'' ''j'' ex_empty_journal_monogr
       = Some ex_empty_journal_title
   \<and> py_strip (concat (itertext ex_empty_journal_title)) = []
   \<and> find_desc_attr (tei ''title'') ''level'' ''m'' ex_empty_journal_monogr
       = Some ex_proceedings_title
   \<and> py_strip (concat (itertext ex_proceedings_title)) = ''Proc X''
   \<and> title (fill_citation ex_empty_journal) = Some ''A Paper''
   \<and> proceedings (fill_citation ex_empty_journal) = Some []"
  by code_simp

text \<open>
  C4, amended. The venue comes from the monograph section by three ordered rules, and
  the first that applies wins: (a) the text of the meeting element itself, trimmed, if
  that is not empty (a meeting element without text does not stop the search); (b)
  otherwise, if there is a title at journal level, its full descendant text, trimmed,
  even when that is empty (a journal title without text stops the search); (c)
  otherwise the full text of the title at monograph level, only if it is not empty
  and differs from the resolved title. Without a monograph section, or when no rule
  applies, the venue is absent.
\<close>

theorem venue_by_ordered_rules:
  "proceedings (fill_citation b) =
     (case find_desc (tei ''monogr'') b of
        None \<Rightarrow> None
      | Some m \<Rightarrow>
          first_rule [meeting_name m, journal_name m,
                      monograph_name (title (fill_citation b)) m])"
  by (rule fill_citation_proceedings)

theorem venue_by_ordered_rules_witness:
  "find_desc (tei ''monogr'') ex_padded = Some ex_padded_monogr
   \<and> meeting_name ex_padded_monogr = Some ''ICML''
   \<and> journal_name ex_padded_monogr = Some ''Nature''
   \<and> proceedings (fill_citation ex_padded) = Some ''ICML''
   \<and> find_desc (tei ''monogr'') ex_inproceedings = Some ex_inproceedings_monogr
   \<and> meeting_name ex_inproceedings_monogr = None
   \<and> journal_name ex_inproceedings_monogr = None
   \<and> title (fill_citation ex_inproceedings) = Some ''A Paper''
   \<and> proceedings (fill_citation ex_inproceedings) = Some ''Proc X''"
proof -
  have m: "find_desc (tei ''monogr'') ex_padded = Some ex_padded_monogr"
    by code_simp
  have a: "meeting_name ex_padded_monogr = Some ''ICML''"
    by code_simp
  have j: "journal_name ex_padded_monogr = Some ''Nature''"
    by code_simp
  have p: "proceedings (fill_citation ex_padded) = Some ''ICML''"
    using venue_by_ordered_rules [of ex_padded] m a by simp
  have m': "find_desc (tei ''monogr'') ex_inproceedings = Some ex_inproceedings_monogr"
    by code_simp
  have a': "meeting_name ex_inproceedings_monogr = None"
    by code_simp
  have j': "journal_name ex_inproceedings_monogr = None"
    by code_simp
  have t': "title (fill_citation ex_inproceedings) = Some ''A Paper''"
    by code_simp
  have c': "monograph_name (Some ''A Paper'') ex_inproceedings_monogr = Some ''Proc X''"
    by code_simp
  have p': "proceedings (fill_citation ex_inproceedings) = Some ''Proc X''"
    using venue_by_ordered_rules [of ex_inproceedings] m' a' j' t' c' by simp
  from m a j p m' a' j' t' p' show ?thesis
    by simp
qed

text \<open>
  C5, as stated, fails. A fragment whose analytic section holds an empty title typed
  main and an article-level title, and whose monograph section holds a title, resolves
  to the monograph title: the search does not stop at the match of rule (a), and the
  fragment does not resolve to its main-typed analytic title.
\<close>

theorem empty_main_title_does_not_stop_search:
  "find_desc (tei ''analytic'') ex_blank = Some ex_blank_analytic
   \<and> find_desc_attr (tei ''title'') ''type'' ''main'' ex_blank_analytic = Some ex_blank_main
   \<and> find_desc_attr (tei ''title'') ''level'' ''a'' ex_blank_analytic = Some ex_blank_level
   \<and> title_text ex_blank_main = []
   \<and> title (fill_citation ex_blank) = Some ''A Book''"
  by code_simp

text \<open>
  C5, amended. The title is resolved by the ordered fallback (a) analytic title typed
  main, (b) analytic title at article level, (c) monograph title typed main, (d)
  monograph title at monograph level. A match of (a) or (b) stops the search only when
  its text is not empty; otherwise (c) and (d) are tried, the first element they match
  gives the title, and the text of (a) or (b) stays when they match nothing. In
  particular a fragment whose analytic section has a title typed main with a non-empty
  text resolves to it, whatever article-level title stands beside it. The text of a
  title is the trimmed concatenation of all its descendant text nodes.
\<close>

theorem title_by_ordered_rules:
  "title (fill_citation b) =
     (if truthy (analytic_title b) then analytic_title b
      else first_rule [monogr_title b, analytic_title b])
   \<and> (\<forall>a t. find_desc (tei ''analytic'') b = Some a
          \<and> find_desc_attr (tei ''title'') ''type'' ''main'' a = Some t
          \<and> py_strip (concat (itertext t)) \<noteq> []
        \<longrightarrow> title (fill_citation b) = Some (py_strip (concat (itertext t))))"
proof (intro conjI allI impI)
  show "title (fill_citation b) =
     (if truthy (analytic_title b) then analytic_title b
      else first_rule [monogr_title b, analytic_title b])"
    by (rule fill_citation_title)
next
  fix a t
  assume h: "find_desc (tei ''analytic'') b = Some a
     \<and> find_desc_attr (tei ''title'') ''type'' ''main'' a = Some t
     \<and> py_strip (concat (itertext t)) \<noteq> []"
  then have "analytic_title b = Some (py_strip (concat (itertext t)))"
    by (simp add: analytic_title_def title_text_def)
  with h show "title (fill_citation b) = Some (py_strip (concat (itertext t)))"
    by (simp add: fill_citation_title)
qed

theorem title_by_ordered_rules_witness:
  "find_desc (tei ''analytic'') ex_two = Some ex_two_analytic
   \<and> find_desc_attr (tei ''title'') ''type'' ''main'' ex_two_analytic = Some ex_two_main
   \<and> py_strip (concat (itertext ex_two_main)) = ''The Main Title''
   \<and> title (fill_citation ex_two) = Some ''The Main Title''"
proof -
  have a: "find_desc (tei ''analytic'') ex_two = Some ex_two_analytic"
    by code_simp
  have t: "find_desc_attr (tei ''title'') ''type'' ''main'' ex_two_analytic = Some ex_two_main"
    by code_simp
  have x: "py_strip (concat (itertext ex_two_main)) = ''The Main Title''"
    by code_simp
  have ne: "py_strip (concat (itertext ex_two_main)) \<noteq> []"
    by (simp add: x)
  have "\<forall>a t. find_desc (tei ''analytic'') ex_two = Some a
          \<and> find_desc_attr (tei ''title'') ''type'' ''main'' a = Some t
          \<and> py_strip (concat (itertext t)) \<noteq> []
        \<longrightarrow> title (fill_citation ex_two) = Some (py_strip (concat (itertext t)))"
    using title_by_ordered_rules [of ex_two] by (rule conjunct2)
  with a t ne
  have "title (fill_citation ex_two) = Some (py_strip (concat (itertext ex_two_main)))"
    by blast
  with a t x show ?thesis by simp
qed

text \<open>
  C6, as stated, fails. The pattern asks for a word boundary on both sides of the four
  digits. A date element with no attribute and the text \<open>2019a\<close> holds a 4-digit
  sequence beginning with 20, yet no year is resolved.
\<close>

theorem year_with_letter_suffix_not_found:
  "date_element ex_suffix = Some ex_suffix_date
   \<and> get ex_suffix_date ''when'' = None
   \<and> el_text ex_suffix_date = Some ''2019a''
   \<and> year (fill_citation ex_suffix) = None"
  by code_simp

text \<open>
  C6, amended. For a fragment with an imprint date element, the year is the integer
  read from the leading four characters of the attribute \<open>when\<close>; only if the
  attribute is absent or does not read as an integer, it is the first sequence of four
  digits beginning with 19 or 20 in the trimmed text of the element that has no
  letter, digit or underscore directly before or after it. The attribute wins when both
  give a year, and the year is absent when neither does.
\<close>

theorem year_from_attribute_then_text:
  assumes "date_element b = Some d"
  shows "year (fill_citation b) =
           (case when_year d of Some n \<Rightarrow> Some n | None \<Rightarrow> text_year d)"
  using assms by (simp add: fill_citation_year)

theorem year_from_attribute_then_text_witness:
  "date_element ex_disagree = Some ex_disagree_date
   \<and> when_year ex_disagree_date = Some 2017
   \<and> text_year ex_disagree_date = Some 2018
   \<and> year (fill_citation ex_disagree) = Some 2017"
proof -
  have d: "date_element ex_disagree = Some ex_disagree_date"
    by code_simp
  have w: "when_year ex_disagree_date = Some 2017"
    by code_simp
  have t: "text_year ex_disagree_date = Some 2018"
    by code_simp
  have "year (fill_citation ex_disagree) = Some 2017"
    using year_from_attribute_then_text [OF d] w by simp
  with d w t show ?thesis by simp
qed

text \<open>
  C7, as stated, fails. The attribute path reads whatever integer the leading
  characters spell: the attribute \<open>when="12"\<close> gives the year 12 in an emitted record.
\<close>

theorem short_attribute_gives_short_year:
  "keep (fill_citation ex_short)
   \<and> date_element ex_short = Some ex_short_date
   \<and> get ex_short_date ''when'' = Some ''12''
   \<and> year (fill_citation ex_short) = Some 12"
  by code_simp

text \<open>
  C7, amended. The year of a record, when present, is an integer of at most four
  characters: it lies between -999 and 9999, whatever the attribute and the text hold;
  and when the attribute gives no year, so that the year comes from the text, it lies
  between 1900 and 2099.
\<close>

theorem year_within_four_characters:
  assumes "year (fill_citation b) = Some n"
  shows "- 999 \<le> n \<and> n \<le> 9999
     \<and> ((\<forall>d. date_element b = Some d \<longrightarrow> when_year d = None) \<longrightarrow> 1900 \<le> n \<and> n \<le> 2099)"
proof -
  from assms obtain d where d: "date_element b = Some d"
    and y: "(case when_year d of Some n \<Rightarrow> Some n | None \<Rightarrow> text_year d) = Some n"
    by (auto simp add: fill_citation_year split: option.splits)
  show ?thesis
  proof (cases "when_year d")
    case None
    with y have "text_year d = Some n" by simp
    then have "1900 \<le> n \<and> n \<le> 2099" by (rule text_year_range)
    then show ?thesis by simp
  next
    case (Some k)
    with y have "when_year d = Some n" by simp
    then have "- 999 \<le> n \<and> n \<le> 9999" by (rule when_year_range)
    with d Some show ?thesis by auto
  qed
qed

theorem year_within_four_characters_witness:
  "year (fill_citation ex_book) = Some 2021
   \<and> date_element ex_book = Some ex_book_date
   \<and> when_year ex_book_date = None
   \<and> - 999 \<le> (2021::int) \<and> (2021::int) \<le> 9999 \<and> 1900 \<le> (2021::int) \<and> (2021::int) \<le> 2099"
proof -
  have y: "year (fill_citation ex_book) = Some 2021"
    by code_simp
  have d: "date_element ex_book = Some ex_book_date"
    by code_simp
  have w: "when_year ex_book_date = None"
    by code_simp
  have "\<forall>d. date_element ex_book = Some d \<longrightarrow> when_year d = None"
    using d w by simp
  with year_within_four_characters [OF y]
  have "- 999 \<le> (2021::int) \<and> (2021::int) \<le> 9999 \<and> 1900 \<le> (2021::int) \<and> (2021::int) \<le> 2099"
    by blast
  with y d w show ?thesis by blast
qed

text \<open>
  C8. The authors of a record come from the analytic section only, one entry for each
  author element that has a displayed name, in document order, nothing sorted and
  nothing removed. The displayed name of an entry with a personal name is the given
  names joined by single spaces, a space and the family name when both are there, the
  family name alone when there is no given name, and nothing when there is neither.
\<close>

theorem authors_from_analytic_in_order:
  "authors (fill_citation b) =
     (case find_desc (tei ''analytic'') b of
        None \<Rightarrow> []
      | Some a \<Rightarrow> List.map_filter display_name (findall_desc (tei ''author'') a))"
  by (simp add: fill_citation_def year_step_others proceedings_step_others
      monogr_title_step_others analytic_step_authors new_citation_def)

theorem authors_from_analytic_in_order_witness:
  "find_desc (tei ''analytic'') ex_attention = Some ex_attention_analytic
   \<and> authors (fill_citation ex_attention) = [''Ashish Vaswani'', ''Noam Shazeer'']"
proof -
  have a: "find_desc (tei ''analytic'') ex_attention = Some ex_attention_analytic"
    by code_simp
  have n: "List.map_filter display_name (findall_desc (tei ''author'') ex_attention_analytic)
      = [''Ashish Vaswani'', ''Noam Shazeer'']"
    by code_simp
  show ?thesis
    using authors_from_analytic_in_order [of ex_attention] a n by simp
qed

text \<open>
  C9. Writing a sequence of records as JSON and reading the text back gives the list of
  the same dictionaries, in the same order, each with the same value under \<open>title\<close>,
  \<open>authors\<close>, \<open>proceedings\<close> and \<open>year\<close>; and the dictionary of a record determines
  the record, so the records read back are equal to the originals field for field.
\<close>

theorem citations_round_trip:
  "load_citations (dump_citations cs) = Inr (JArr (map citation_dict cs))
   \<and> inj citation_dict"
proof
  have "distinct_keys (citation_dict c)" for c
    by (simp add: citation_dict_def list_all_iff split: option.splits)
  then have "distinct_keys (JArr (map citation_dict cs))"
    by (simp add: list_all_iff)
  then show "load_citations (dump_citations cs) = Inr (JArr (map citation_dict cs))"
    by (simp add: load_citations_def dump_citations_def json_loads_dumps)
next
  show "inj citation_dict"
  proof (rule injI)
    fix c c' :: citation
    assume "citation_dict c = citation_dict c'"
    moreover have "(map JStr xs = map JStr ys) = (xs = ys)" for xs ys
      by (rule inj_map_eq_map) (simp add: inj_def)
    ultimately have "title c = title c'" "authors c = authors c'"
      "proceedings c = proceedings c'" "year c = year c'"
      by (auto simp add: citation_dict_def split: option.splits)
    then show "c = c'"
      by simp
  qed
qed

theorem citations_round_trip_witness:
  "load_citations (dump_citations [fill_citation ex_attention, fill_citation ex_book])
     = Inr (JArr [citation_dict (fill_citation ex_attention),
                  citation_dict (fill_citation ex_book)])"
  using citations_round_trip [of "[fill_citation ex_attention, fill_citation ex_book]"]
  by simp

text \<open>
  C10. An author entry whose personal name has given names but no family name adds
  nothing to the record: the given names alone are never a displayed name.
\<close>

theorem given_names_alone_give_no_entry:
  assumes "find_desc (tei ''persName'') author = Some p"
    and "forenames_loop (findall_child (tei ''forename'') p) [] \<noteq> []"
    and "\<not> truthy (extract_text (find_child (tei ''surname'') p))"
  shows "author_step author c = c"
  using assms by (cases "extract_text (find_child (tei ''surname'') p)")
    (simp_all add: author_step_def Let_def)

theorem given_names_alone_give_no_entry_witness:
  "find_desc (tei ''persName'') ex_given_only = Some ex_given_name
   \<and> forenames_loop (findall_child (tei ''forename'') ex_given_name) [] = [''Ashish'']
   \<and> \<not> truthy (extract_text (find_child (tei ''surname'') ex_given_name))
   \<and> author_step ex_given_only new_citation = new_citation"
proof -
  have a: "find_desc (tei ''persName'') ex_given_only = Some ex_given_name"
    by code_simp
  have b: "forenames_loop (findall_child (tei ''forename'') ex_given_name) [] = [''Ashish'']"
    by code_simp
  have c: "\<not> truthy (extract_text (find_child (tei ''surname'') ex_given_name))"
    by code_simp
  have "forenames_loop (findall_child (tei ''forename'') ex_given_name) [] \<noteq> []"
    by (simp add: b)
  from given_names_alone_give_no_entry [OF a this c]
  have "author_step ex_given_only new_citation = new_citation" .
  with a b c show ?thesis by simp
qed

end
